theory Spec2Isabelle
  imports
    Complex_Main
    "HOL-Library.Char_ord"
    "HOL-Library.List_Lexorder"
    "HOL-Library.Product_Lexorder"
    "HOL-Library.Multiset"
    "HOL-Library.Sublist"
begin

section \<open>Strings as Python sees them\<close>

text \<open>
  Python strings are modelled as HOL strings restricted to ASCII: a character is its
  code point below 128. The character classes below are the ASCII part of what
  Python's \<^verbatim>\<open>re\<close> module and \<^verbatim>\<open>str\<close> methods use: \<^verbatim>\<open>\d\<close> is
  \<^verbatim>\<open>0\<close> to \<^verbatim>\<open>9\<close>, \<^verbatim>\<open>\s\<close> and \<^verbatim>\<open>str.strip()\<close> use the characters 9 to 13,
  28 to 31 and 32, and \<^verbatim>\<open>str.lower()\<close> maps \<^verbatim>\<open>A\<close> to \<^verbatim>\<open>Z\<close> onto \<^verbatim>\<open>a\<close> to \<^verbatim>\<open>z\<close>.
\<close>

definition is_digit :: "char \<Rightarrow> bool" where
  "is_digit c = (let n = (of_char c :: nat) in 48 \<le> n \<and> n \<le> 57)"

definition is_space :: "char \<Rightarrow> bool" where
  "is_space c = (let n = (of_char c :: nat) in (9 \<le> n \<and> n \<le> 13) \<or> (28 \<le> n \<and> n \<le> 32))"

definition lower_char :: "char \<Rightarrow> char" where
  "lower_char c = (case map_of (zip ''ABCDEFGHIJKLMNOPQRSTUVWXYZ'' ''abcdefghijklmnopqrstuvwxyz'') c of
     None \<Rightarrow> c | Some l \<Rightarrow> l)"

definition lower :: "string \<Rightarrow> string" where
  "lower s = map lower_char s"

text \<open>\<^verbatim>\<open>str.strip()\<close>: whitespace is removed at both ends.\<close>

definition lstrip :: "string \<Rightarrow> string" where
  "lstrip s = dropWhile is_space s"

definition rstrip :: "string \<Rightarrow> string" where
  "rstrip s = rev (dropWhile is_space (rev s))"

definition strip :: "string \<Rightarrow> string" where
  "strip s = rstrip (lstrip s)"

text \<open>\<^verbatim>\<open>int(a)\<close> on a string of decimal digits.\<close>

definition digit_val :: "char \<Rightarrow> int" where
  "digit_val c = of_char c - 48"

definition int_of_digits :: "string \<Rightarrow> int" where
  "int_of_digits s = foldl (\<lambda>acc c. 10 * acc + digit_val c) 0 s"

text \<open>\<^verbatim>\<open>needle in haystack\<close> and \<^verbatim>\<open>str.startswith\<close>.\<close>

fun startswith :: "string \<Rightarrow> string \<Rightarrow> bool" where
  "startswith s [] = True"
| "startswith [] (c # cs) = False"
| "startswith (d # ds) (c # cs) = (d = c \<and> startswith ds cs)"

fun contains :: "string \<Rightarrow> string \<Rightarrow> bool" where
  "contains [] needle = (needle = [])"
| "contains (c # cs) needle = (startswith (c # cs) needle \<or> contains cs needle)"

section \<open>Regular-expression pieces\<close>

text \<open>
  Each matcher consumes a prefix of its input and returns what it captured together
  with the rest, or \<open>None\<close> when the piece does not match there. \<^verbatim>\<open>\d+\<close> and
  \<^verbatim>\<open>\s*\<close> are greedy; in every pattern of the scripts the piece that follows a
  greedy run cannot start with a character of the run, so backtracking never finds
  a match that the greedy choice misses.
\<close>

definition digits1 :: "string \<Rightarrow> (string \<times> string) option" where
  "digits1 s = (let d = takeWhile is_digit s in
     if d = [] then None else Some (d, dropWhile is_digit s))"

definition digitsN :: "nat \<Rightarrow> string \<Rightarrow> (string \<times> string) option" where
  "digitsN n s = (if n \<le> length s \<and> list_all is_digit (take n s)
     then Some (take n s, drop n s) else None)"

definition one_of :: "(char \<Rightarrow> bool) \<Rightarrow> string \<Rightarrow> string option" where
  "one_of P s = (case s of [] \<Rightarrow> None | c # cs \<Rightarrow> if P c then Some cs else None)"

definition spaces0 :: "string \<Rightarrow> string" where
  "spaces0 s = dropWhile is_space s"

definition spaces1 :: "string \<Rightarrow> string option" where
  "spaces1 s = (case s of [] \<Rightarrow> None | c # cs \<Rightarrow> if is_space c then Some (dropWhile is_space cs) else None)"

definition is_sep :: "char \<Rightarrow> bool" where
  "is_sep c = (c = CHR ''/'' \<or> c = CHR ''-'')"

section \<open>Identifier normalisation (autoOpenAIDescription.py)\<close>

text \<open>
  \<^verbatim>\<open>OBJ_FROM_T1_PATTERN = re.compile(r"^\s*(\d+)[/-](\d{4})[/-](\d{4})")\<close>.
  The pattern starts with \<^verbatim>\<open>^\<close> and is compiled without \<^verbatim>\<open>re.MULTILINE\<close>, so
  \<^verbatim>\<open>search\<close> can only succeed at position 0.
\<close>

definition OBJ_FROM_T1_PATTERN_search :: "string \<Rightarrow> (string \<times> string \<times> string) option" where
  "OBJ_FROM_T1_PATTERN_search s =
     (case digits1 (spaces0 s) of None \<Rightarrow> None | Some (g1, r1) \<Rightarrow>
     (case one_of is_sep r1 of None \<Rightarrow> None | Some r2 \<Rightarrow>
     (case digitsN 4 r2 of None \<Rightarrow> None | Some (g2, r3) \<Rightarrow>
     (case one_of is_sep r3 of None \<Rightarrow> None | Some r4 \<Rightarrow>
     (case digitsN 4 r4 of None \<Rightarrow> None | Some (g3, r5) \<Rightarrow> Some (g1, g2, g3))))))"

text \<open>
  \<^verbatim>\<open>normalize_obj_id_from_excel(value)\<close>: \<open>None\<close> stays \<open>None\<close>; otherwise the value
  is stripped, searched, and the three groups are joined with \<^verbatim>\<open>-\<close>.
\<close>

definition normalize_obj_id_from_excel :: "string option \<Rightarrow> string option" where
  "normalize_obj_id_from_excel v =
     (case v of None \<Rightarrow> None | Some raw \<Rightarrow>
     (case OBJ_FROM_T1_PATTERN_search (strip raw) of None \<Rightarrow> None
      | Some (g1, g2, g3) \<Rightarrow> Some (g1 @ ''-'' @ g2 @ ''-'' @ g3)))"

section \<open>Paths and the file system\<close>

text \<open>
  What the scripts ask of a \<^verbatim>\<open>pathlib.Path\<close>: its directory, its \<^verbatim>\<open>name\<close>, whether
  it \<^verbatim>\<open>is_file()\<close>, and its \<^verbatim>\<open>stat().st_size\<close> (\<open>None\<close> when \<^verbatim>\<open>stat\<close> raises
  \<^verbatim>\<open>OSError\<close>). A root directory either does not exist or lists its entries in the
  order \<^verbatim>\<open>rglob("*")\<close> yields them.
\<close>

record path =
  parent :: string
  name :: string
  is_file :: bool
  st_size :: "int option"

record root_dir =
  root_exists :: bool
  rglob :: "path list"

text \<open>
  \<^verbatim>\<open>Path.suffix\<close> and \<^verbatim>\<open>Path.stem\<close>: with \<^verbatim>\<open>i = name.rfind('.')\<close>, the suffix is
  \<^verbatim>\<open>name[i:]\<close> and the stem \<^verbatim>\<open>name[:i]\<close> when \<^verbatim>\<open>0 < i < len(name) - 1\<close>; otherwise the
  suffix is empty and the stem is the whole name.
\<close>

definition rfind_dot :: "string \<Rightarrow> nat option" where
  "rfind_dot s = (if CHR ''.'' \<in> set s
     then Some (length s - 1 - length (takeWhile (\<lambda>c. c \<noteq> CHR ''.'') (rev s)))
     else None)"

definition path_suffix :: "string \<Rightarrow> string" where
  "path_suffix nm = (case rfind_dot nm of None \<Rightarrow> []
     | Some i \<Rightarrow> if 0 < i \<and> i < length nm - 1 then drop i nm else [])"

definition path_stem :: "string \<Rightarrow> string" where
  "path_stem nm = (case rfind_dot nm of None \<Rightarrow> nm
     | Some i \<Rightarrow> if 0 < i \<and> i < length nm - 1 then take i nm else nm)"

definition ALLOWED_EXTS :: "string set" where
  "ALLOWED_EXTS = {''.jpg'', ''.jpeg'', ''.png'', ''.tif'', ''.tiff'', ''.bmp''}"

definition is_dash :: "char \<Rightarrow> bool" where
  "is_dash c = (c = CHR ''-'')"

section \<open>Object identifiers and sort keys of file names (autoOpenAIDescription.py)\<close>

text \<open>\<^verbatim>\<open>OBJ_ID_PATTERN = re.compile(r"^(\d+)-(\d{4})-(\d{4})", re.IGNORECASE)\<close>, used with \<^verbatim>\<open>match\<close>.\<close>

definition OBJ_ID_PATTERN_match :: "string \<Rightarrow> ((string \<times> string \<times> string) \<times> string) option" where
  "OBJ_ID_PATTERN_match s =
     (case digits1 s of None \<Rightarrow> None | Some (g1, r1) \<Rightarrow>
     (case one_of is_dash r1 of None \<Rightarrow> None | Some r2 \<Rightarrow>
     (case digitsN 4 r2 of None \<Rightarrow> None | Some (g2, r3) \<Rightarrow>
     (case one_of is_dash r3 of None \<Rightarrow> None | Some r4 \<Rightarrow>
     (case digitsN 4 r4 of None \<Rightarrow> None | Some (g3, r5) \<Rightarrow> Some ((g1, g2, g3), r5))))))"

definition extract_object_id :: "string \<Rightarrow> string option" where
  "extract_object_id filename =
     (case OBJ_ID_PATTERN_match filename of None \<Rightarrow> None
      | Some ((g1, g2, g3), r) \<Rightarrow> Some (g1 @ ''-'' @ g2 @ ''-'' @ g3))"

text \<open>
  \<^verbatim>\<open>SUFFIX_PATTERN = re.compile(r"^\d+-\d{4}-\d{4}-(\d{3})-(\d{3})", re.IGNORECASE)\<close>:
  the identifier, then two groups of three digits; anything may follow.
\<close>

definition SUFFIX_PATTERN_match :: "string \<Rightarrow> ((string \<times> string) \<times> string) option" where
  "SUFFIX_PATTERN_match s =
     (case OBJ_ID_PATTERN_match s of None \<Rightarrow> None | Some (g, r1) \<Rightarrow>
     (case one_of is_dash r1 of None \<Rightarrow> None | Some r2 \<Rightarrow>
     (case digitsN 3 r2 of None \<Rightarrow> None | Some (a, r3) \<Rightarrow>
     (case one_of is_dash r3 of None \<Rightarrow> None | Some r4 \<Rightarrow>
     (case digitsN 3 r4 of None \<Rightarrow> None | Some (b, r5) \<Rightarrow> Some ((a, b), r5))))))"

text \<open>
  \<^verbatim>\<open>suffix_sort_key\<close> of autoOpenAIDescription.py: \<^verbatim>\<open>(int(a), int(b), stem.lower())\<close> when
  the stem matches, \<^verbatim>\<open>(999999, 999999, path.name.lower())\<close> otherwise.
\<close>

definition suffix_sort_key :: "path \<Rightarrow> int \<times> int \<times> string" where
  "suffix_sort_key p =
     (let stem = path_stem (name p) in
      case SUFFIX_PATTERN_match stem of
        Some ((a, b), r) \<Rightarrow> (int_of_digits a, int_of_digits b, lower stem)
      | None \<Rightarrow> (999999, 999999, lower (name p)))"

definition is_image_file :: "path \<Rightarrow> bool" where
  "is_image_file p = (is_file p \<and> lower (path_suffix (name p)) \<in> ALLOWED_EXTS)"

text \<open>\<^verbatim>\<open>unique_by_filename\<close>: the loop over \<^verbatim>\<open>paths\<close> with its \<^verbatim>\<open>seen\<close> set and \<^verbatim>\<open>out\<close> list.\<close>

fun unique_by_filename_loop :: "string set \<Rightarrow> path list \<Rightarrow> path list \<Rightarrow> path list" where
  "unique_by_filename_loop seen out [] = out"
| "unique_by_filename_loop seen out (p # ps) =
     (let key = lower (name p) in
      if key \<in> seen then unique_by_filename_loop seen out ps
      else unique_by_filename_loop (insert key seen) (out @ [p]) ps)"

definition unique_by_filename :: "path list \<Rightarrow> path list" where
  "unique_by_filename paths = unique_by_filename_loop {} [] paths"

text \<open>
  \<^verbatim>\<open>groups\<close> is a \<^verbatim>\<open>defaultdict(list)\<close>: an association list in insertion order, where
  \<^verbatim>\<open>groups[obj_id].append(path)\<close> extends the entry of the key or adds a new one.
\<close>

fun groups_append :: "string \<Rightarrow> path \<Rightarrow> (string \<times> path list) list \<Rightarrow> (string \<times> path list) list" where
  "groups_append k p [] = [(k, [p])]"
| "groups_append k p ((k', ps) # g) =
     (if k = k' then (k', ps @ [p]) # g else (k', ps) # groups_append k p g)"

definition scan_path :: "(string \<times> path list) list \<Rightarrow> path \<Rightarrow> (string \<times> path list) list" where
  "scan_path groups p =
     (if \<not> is_image_file p then groups
      else case extract_object_id (name p) of
             None \<Rightarrow> groups
           | Some obj_id \<Rightarrow> if obj_id = [] then groups else groups_append obj_id p groups)"

definition scan_root :: "(string \<times> path list) list \<Rightarrow> root_dir \<Rightarrow> (string \<times> path list) list" where
  "scan_root groups rootdir =
     (if \<not> root_exists rootdir then groups else foldl scan_path groups (rglob rootdir))"

definition collect_images_by_object :: "root_dir list \<Rightarrow> (string \<times> path list) list" where
  "collect_images_by_object dirs =
     map (\<lambda>(k, ps). (k, sort_key suffix_sort_key (unique_by_filename ps)))
         (foldl scan_root [] dirs)"

section \<open>Images of one object (build_site.py)\<close>

text \<open>
  \<^verbatim>\<open>SUFFIX_RE = re.compile(r"^\d+-\d{4}-\d{4}-(\d{3})-(\d{3})$", re.IGNORECASE)\<close>: the same
  pattern closed by \<^verbatim>\<open>$\<close>, which matches at the end of the string or just before a
  newline that ends it.
\<close>

definition at_dollar :: "string \<Rightarrow> bool" where
  "at_dollar r = (r = [] \<or> r = [CHR 0x0A])"

definition SUFFIX_RE_match :: "string \<Rightarrow> (string \<times> string) option" where
  "SUFFIX_RE_match s =
     (case SUFFIX_PATTERN_match s of None \<Rightarrow> None
      | Some ((a, b), r) \<Rightarrow> if at_dollar r then Some (a, b) else None)"

definition suffix_sort_key_build_site :: "path \<Rightarrow> int \<times> int \<times> string" where
  "suffix_sort_key_build_site p =
     (case SUFFIX_RE_match (path_stem (name p)) of
        Some (a, b) \<Rightarrow> (int_of_digits a, int_of_digits b, lower (name p))
      | None \<Rightarrow> (999999, 999999, lower (name p)))"

text \<open>The size recorded for a candidate: \<^verbatim>\<open>p.stat().st_size\<close>, or \<^verbatim>\<open>-1\<close> on \<^verbatim>\<open>OSError\<close>.\<close>

definition size_or_minus1 :: "path \<Rightarrow> int" where
  "size_or_minus1 p = (case st_size p of None \<Rightarrow> - 1 | Some n \<Rightarrow> n)"

definition candidates_in_root :: "string \<Rightarrow> root_dir \<Rightarrow> (path \<times> string \<times> int) list" where
  "candidates_in_root prefix_lower rootdir =
     (if \<not> root_exists rootdir then []
      else map (\<lambda>p. (p, lower (name p), size_or_minus1 p))
             (filter (\<lambda>p. is_file p \<and> lower (path_suffix (name p)) \<in> ALLOWED_EXTS
                          \<and> startswith (lower (name p)) prefix_lower)
                     (rglob rootdir)))"

definition collect_candidates :: "string \<Rightarrow> root_dir list \<Rightarrow> (path \<times> string \<times> int) list" where
  "collect_candidates obj_id roots =
     concat (map (candidates_in_root (lower (obj_id @ ''-''))) roots)"

fun dedup_loop :: "(string \<times> int) set \<Rightarrow> path list \<Rightarrow> (path \<times> string \<times> int) list \<Rightarrow> path list" where
  "dedup_loop seen unique [] = unique"
| "dedup_loop seen unique ((p, name_lower, sz) # cs) =
     (let key = (name_lower, sz) in
      if key \<in> seen then dedup_loop seen unique cs
      else dedup_loop (insert key seen) (unique @ [p]) cs)"

definition collect_images_for_object :: "string \<Rightarrow> root_dir list \<Rightarrow> path list" where
  "collect_images_for_object obj_id roots =
     sort_key suffix_sort_key_build_site (dedup_loop {} [] (collect_candidates obj_id roots))"

section \<open>The index as the specification words it\<close>






text \<open>The keys by which the two scripts recognise a duplicate.\<close>

definition filename_key :: "path \<Rightarrow> string" where
  "filename_key p = lower (name p)"

definition name_size_key :: "path \<Rightarrow> string \<times> int" where
  "name_size_key p = (lower (name p), size_or_minus1 p)"

text \<open>
  The image files gathered for one identifier across the roots, in root-list order and,
  within a root, in the order of its listing: what \<^verbatim>\<open>groups[obj_id]\<close> holds before
  duplicates are removed.
\<close>

definition gathered_for :: "root_dir list \<Rightarrow> string \<Rightarrow> path list" where
  "gathered_for dirs obj_id =
     filter (\<lambda>p. is_image_file p \<and> extract_object_id (name p) = Some obj_id)
            (concat (map rglob (filter root_exists dirs)))"

text \<open>A regular file of a given directory, name and size, for the examples.\<close>

definition image_file :: "string \<Rightarrow> string \<Rightarrow> int \<Rightarrow> path" where
  "image_file d n sz = \<lparr>parent = d, name = n, is_file = True, st_size = Some sz\<rparr>"

definition listing :: "path list \<Rightarrow> root_dir" where
  "listing ps = \<lparr>root_exists = True, rglob = ps\<rparr>"

text \<open>
  Reading the groups: whether a file is put under an identifier, the list stored under
  a key (empty when the key is absent), and the fact that no key holds an empty list.
\<close>

definition belongs_to :: "string \<Rightarrow> path \<Rightarrow> bool" where
  "belongs_to k p = (is_image_file p \<and> extract_object_id (name p) = Some k)"

definition group_of :: "(string \<times> path list) list \<Rightarrow> string \<Rightarrow> path list" where
  "group_of g k = (case map_of g k of None \<Rightarrow> [] | Some ps \<Rightarrow> ps)"

definition no_empty_group :: "(string \<times> path list) list \<Rightarrow> bool" where
  "no_empty_group g = (\<forall>(k, ps) \<in> set g. ps \<noteq> [])"

section \<open>Object numbers in copy_RelevantImages.py\<close>

text \<open>
  \<^verbatim>\<open>OBJ_RE = re.compile(r"(\d+)\s*/\s*(\d{4})\s*/\s*(\d{3,4})\s+(\d+)", re.IGNORECASE)\<close>,
  used with \<^verbatim>\<open>search\<close>: the pattern is tried at position 0, then 1, and so on, and
  the first position where it matches gives the result. \<^verbatim>\<open>\d{3,4}\<close> takes four digits
  when there are four, otherwise three.
\<close>

definition is_slash :: "char \<Rightarrow> bool" where
  "is_slash c = (c = CHR ''/'')"

definition digits34 :: "string \<Rightarrow> (string \<times> string) option" where
  "digits34 s = (let d = takeWhile is_digit s in
     if 3 \<le> length d then Some (take 4 d, drop (min 4 (length d)) s) else None)"

definition OBJ_RE_match_at :: "string \<Rightarrow> (string \<times> string \<times> string \<times> string) option" where
  "OBJ_RE_match_at s =
     (case digits1 s of None \<Rightarrow> None | Some (g1, r1) \<Rightarrow>
     (case one_of is_slash (spaces0 r1) of None \<Rightarrow> None | Some r2 \<Rightarrow>
     (case digitsN 4 (spaces0 r2) of None \<Rightarrow> None | Some (yr, r3) \<Rightarrow>
     (case one_of is_slash (spaces0 r3) of None \<Rightarrow> None | Some r4 \<Rightarrow>
     (case digits34 (spaces0 r4) of None \<Rightarrow> None | Some (g3, r5) \<Rightarrow>
     (case spaces1 r5 of None \<Rightarrow> None | Some r6 \<Rightarrow>
     (case digits1 r6 of None \<Rightarrow> None | Some (g4, r7) \<Rightarrow> Some (g1, yr, g3, g4))))))))"

fun OBJ_RE_search :: "string \<Rightarrow> (string \<times> string \<times> string \<times> string) option" where
  "OBJ_RE_search [] = OBJ_RE_match_at []"
| "OBJ_RE_search (c # cs) =
     (case OBJ_RE_match_at (c # cs) of Some m \<Rightarrow> Some m | None \<Rightarrow> OBJ_RE_search cs)"

record parsed_number =
  base_prefix :: string
  year :: string

text \<open>
  \<^verbatim>\<open>parse_object_number(raw)\<close> of copy_RelevantImages.py; a cell that is not a string
  is \<open>None\<close> here and gives \<open>None\<close>.
\<close>

definition parse_object_number :: "string option \<Rightarrow> parsed_number option" where
  "parse_object_number raw =
     (case raw of None \<Rightarrow> None | Some s \<Rightarrow>
     (case OBJ_RE_search s of None \<Rightarrow> None
      | Some (g1, yr, g3, g4) \<Rightarrow>
          Some \<lparr>base_prefix = g1 @ ''-'' @ yr @ ''-'' @ g3 @ ''-'', year = yr\<rparr>))"

section \<open>Object numbers in copy_images_from_excel.py\<close>

text \<open>
  \<^verbatim>\<open>OBJECT_REGEX = re.compile(r"^\s*(?P<prefix>\d+)[\/-](?P<year>\d{4})[\/-](?P<code>\d{4})\s+(?P<variant>\d+)\s*$")\<close>,
  used with \<^verbatim>\<open>match\<close>. After the variant only whitespace may follow: \<^verbatim>\<open>\s*$\<close> accepts
  exactly the rests that consist of whitespace.
\<close>

definition OBJECT_REGEX_match :: "string \<Rightarrow> (string \<times> string \<times> string \<times> string) option" where
  "OBJECT_REGEX_match s =
     (case digits1 (spaces0 s) of None \<Rightarrow> None | Some (prefix', r1) \<Rightarrow>
     (case one_of is_sep r1 of None \<Rightarrow> None | Some r2 \<Rightarrow>
     (case digitsN 4 r2 of None \<Rightarrow> None | Some (yr, r3) \<Rightarrow>
     (case one_of is_sep r3 of None \<Rightarrow> None | Some r4 \<Rightarrow>
     (case digitsN 4 r4 of None \<Rightarrow> None | Some (code, r5) \<Rightarrow>
     (case spaces1 r5 of None \<Rightarrow> None | Some r6 \<Rightarrow>
     (case digits1 r6 of None \<Rightarrow> None | Some (variant, r7) \<Rightarrow>
        if spaces0 r7 = [] then Some (prefix', yr, code, variant) else None)))))))"

text \<open>
  \<^verbatim>\<open>parse_object_number(value)\<close> of copy_images_from_excel.py returns
  \<^verbatim>\<open>(s, prefix, year, code, variant)\<close> with \<^verbatim>\<open>s\<close> the stripped value.
\<close>

definition parse_object_number_from_excel ::
    "string option \<Rightarrow> (string \<times> string \<times> string \<times> string \<times> string) option" where
  "parse_object_number_from_excel v =
     (case v of None \<Rightarrow> None | Some raw \<Rightarrow>
       (let s = strip raw in
        if s = [] then None
        else case OBJECT_REGEX_match s of None \<Rightarrow> None
             | Some (prefix', yr, code, variant) \<Rightarrow> Some (s, prefix', yr, code, variant)))"

section \<open>Metadata (autoOpenAIDescription.py)\<close>

text \<open>
  \<^verbatim>\<open>safe_str(x)\<close>: \<^verbatim>\<open>None\<close> and NaN (both \<open>None\<close> here) give the sentinel
  \<^verbatim>\<open>"No Data"\<close>; any other value is converted to a string and stripped, and the empty
  string gives the sentinel too.
\<close>

definition safe_str :: "string option \<Rightarrow> string" where
  "safe_str x = (case x of None \<Rightarrow> ''No Data''
     | Some v \<Rightarrow> (let s = strip v in if s = [] then ''No Data'' else s))"

definition EXCEL_TO_FIELDS :: "(string \<times> string) list" where
  "EXCEL_TO_FIELDS =
     [(''t1'', ''InventoryNo''), (''t2'', ''Contributors''), (''t3'', ''Materials''),
      (''t5'', ''Dimensions''), (''t8'', ''Location''), (''t9'', ''LocationDescription''),
      (''t12'', ''DetailedObjectName''), (''t14'', ''YearOfManufacture'')]"

definition FIELDS_ORDER :: "string list" where
  "FIELDS_ORDER =
     [''InventoryNo'', ''Contributors'', ''Materials'', ''Dimensions'', ''Location'',
      ''LocationDescription'', ''DetailedObjectName'', ''YearOfManufacture'']"

text \<open>
  A row of the sheet answers \<^verbatim>\<open>row.get(header)\<close>; a record of metadata is a dictionary
  from field names to strings; a source is a dictionary from identifiers to records.
\<close>

type_synonym row = "string \<Rightarrow> string option"
type_synonym entry = "string \<Rightarrow> string option"
type_synonym mapping = "string \<Rightarrow> entry option"

text \<open>The body of the loop of \<^verbatim>\<open>read_metadata_excel\<close> over the rows.\<close>

definition read_row :: "mapping \<Rightarrow> row \<Rightarrow> mapping" where
  "read_row mapping row =
     (case normalize_obj_id_from_excel (row ''t1'') of
        None \<Rightarrow> mapping
      | Some obj_norm \<Rightarrow>
          if obj_norm = [] then mapping
          else (let entry = foldl (\<lambda>e (excel_key, field). e(field \<mapsto> safe_str (row excel_key)))
                                  Map.empty EXCEL_TO_FIELDS;
                    entry' = (if entry ''InventoryNo'' = Some ''No Data''
                              then entry(''InventoryNo'' \<mapsto> obj_norm) else entry)
                in mapping(obj_norm \<mapsto> entry')))"

text \<open>\<^verbatim>\<open>read_metadata_excel(path)\<close>; the sheet is \<open>None\<close> when the file does not exist.\<close>

definition read_metadata_excel :: "row list option \<Rightarrow> mapping" where
  "read_metadata_excel sheet =
     (case sheet of None \<Rightarrow> Map.empty | Some rows \<Rightarrow> foldl read_row Map.empty rows)"

text \<open>
  \<^verbatim>\<open>build_metadata_for_object(obj_id, maps)\<close>. The inner loop runs over
  \<^verbatim>\<open>FIELDS_ORDER\<close>; the outer loop over the sources leaves with \<^verbatim>\<open>break\<close> once no
  field holds the sentinel. The second component counts the sources the outer loop
  has visited.
\<close>

fun fill_fields :: "entry \<Rightarrow> string list \<Rightarrow> entry \<Rightarrow> entry" where
  "fill_fields found [] base = base"
| "fill_fields found (k # ks) base =
     fill_fields found ks
       (if base k = Some ''No Data'' \<and> found k \<noteq> None \<and> safe_str (found k) \<noteq> ''No Data''
        then base(k \<mapsto> safe_str (found k)) else base)"

definition all_filled :: "entry \<Rightarrow> bool" where
  "all_filled base = list_all (\<lambda>k. base k \<noteq> Some ''No Data'') FIELDS_ORDER"

fun merge_maps :: "string \<Rightarrow> mapping list \<Rightarrow> entry \<times> nat \<Rightarrow> entry \<times> nat" where
  "merge_maps obj_id [] (base, visited) = (base, visited)"
| "merge_maps obj_id (mp # mps) (base, visited) =
     (case mp obj_id of
        None \<Rightarrow> merge_maps obj_id mps (base, Suc visited)
      | Some found \<Rightarrow>
          (let base' = fill_fields found FIELDS_ORDER base in
           if all_filled base' then (base', Suc visited)
           else merge_maps obj_id mps (base', Suc visited)))"

definition initial_base :: entry where
  "initial_base = map_of (map (\<lambda>k. (k, ''No Data'')) FIELDS_ORDER)"

definition build_metadata_for_object :: "string \<Rightarrow> mapping list \<Rightarrow> entry" where
  "build_metadata_for_object obj_id maps =
     (let base = fst (merge_maps obj_id maps (initial_base, 0)) in
      if base ''InventoryNo'' = Some ''No Data'' then base(''InventoryNo'' \<mapsto> obj_id) else base)"

text \<open>
  The merge as the specification words it: the value a source offers for a field, and
  the first offer among the sources that know the identifier, in priority order.
\<close>

definition offered :: "entry \<Rightarrow> string \<Rightarrow> string option" where
  "offered found k = (if found k \<noteq> None \<and> safe_str (found k) \<noteq> ''No Data''
     then Some (safe_str (found k)) else None)"

fun first_offer :: "string \<Rightarrow> string \<Rightarrow> mapping list \<Rightarrow> string option" where
  "first_offer obj_id k [] = None"
| "first_offer obj_id k (mp # mps) =
     (case mp obj_id of
        None \<Rightarrow> first_offer obj_id k mps
      | Some found \<Rightarrow>
          (case offered found k of Some v \<Rightarrow> Some v | None \<Rightarrow> first_offer obj_id k mps))"

definition merged_value :: "string \<Rightarrow> string \<Rightarrow> mapping list \<Rightarrow> string" where
  "merged_value obj_id k maps =
     (case first_offer obj_id k maps of
        Some v \<Rightarrow> v
      | None \<Rightarrow> if k = ''InventoryNo'' then obj_id else ''No Data'')"

text \<open>
  Rows and files from which an identifier can be derived, and a root without the files
  from which none can.
\<close>

definition parseable_row :: "row \<Rightarrow> bool" where
  "parseable_row row = (normalize_obj_id_from_excel (row ''t1'') \<noteq> None)"

definition parseable_file :: "path \<Rightarrow> bool" where
  "parseable_file p = (extract_object_id (name p) \<noteq> None)"

definition without_unparseable :: "root_dir \<Rightarrow> root_dir" where
  "without_unparseable d = d\<lparr>rglob := filter parseable_file (rglob d)\<rparr>"

section \<open>The description request (autoOpenAIDescription.py)\<close>

definition MAX_RETRIES :: nat where
  "MAX_RETRIES = 6"

definition BATCH_LIMIT :: nat where
  "BATCH_LIMIT = 10"

definition REQUEST_COOLDOWN_SEC :: rat where
  "REQUEST_COOLDOWN_SEC = 5 / 2"

text \<open>
  One call of \<^verbatim>\<open>client.chat.completions.create\<close> either returns a text
  (\<^verbatim>\<open>resp.choices[0].message.content or ""\<close>) or raises an exception, of which the
  code reads \<^verbatim>\<open>str(e)\<close>. Times are exact rationals instead of floats.
\<close>

datatype api_result = Response string | Failure string

text \<open>
  \<^verbatim>\<open>WAIT_HINT_PATTERN = re.compile(r"try again in ([0-9]+(\.[0-9]+)?)s", re.IGNORECASE)\<close>,
  used with \<^verbatim>\<open>search\<close>; \<^verbatim>\<open>float(m.group(1))\<close> is the value of the decimal numeral.
\<close>

definition is_letter_s :: "char \<Rightarrow> bool" where
  "is_letter_s c = (lower_char c = CHR ''s'')"

definition decimal_value :: "string \<Rightarrow> string \<Rightarrow> rat" where
  "decimal_value d f = of_int (int_of_digits d) + of_int (int_of_digits f) / 10 ^ length f"

definition WAIT_HINT_PATTERN_match_at :: "string \<Rightarrow> rat option" where
  "WAIT_HINT_PATTERN_match_at s =
     (if lower (take 13 s) \<noteq> ''try again in '' then None
      else case digits1 (drop 13 s) of None \<Rightarrow> None | Some (d, r1) \<Rightarrow>
        (case r1 of [] \<Rightarrow> None
         | c # r2 \<Rightarrow>
             if c = CHR ''.'' then
               (case digits1 r2 of None \<Rightarrow> None
                | Some (f, r3) \<Rightarrow>
                   (case one_of is_letter_s r3 of None \<Rightarrow> None
                    | Some r4 \<Rightarrow> Some (decimal_value d f)))
             else if is_letter_s c then Some (decimal_value d [])
             else None))"

fun WAIT_HINT_PATTERN_search :: "string \<Rightarrow> rat option" where
  "WAIT_HINT_PATTERN_search [] = WAIT_HINT_PATTERN_match_at []"
| "WAIT_HINT_PATTERN_search (c # cs) =
     (case WAIT_HINT_PATTERN_match_at (c # cs) of
        Some h \<Rightarrow> Some h | None \<Rightarrow> WAIT_HINT_PATTERN_search cs)"

text \<open>The two tests on the message of the exception.\<close>

definition is_rate_limit :: "string \<Rightarrow> bool" where
  "is_rate_limit msg = (contains msg ''429'' \<or> contains (lower msg) ''rate_limit'')"

definition is_server_error :: "string \<Rightarrow> bool" where
  "is_server_error msg = list_ex (contains msg) [''500'', ''502'', ''503'', ''504'']"

text \<open>
  What a call does besides returning: the requests it sends, numbered by attempt, and
  the times it sleeps.
\<close>

datatype event = Request nat | Sleep rat

text \<open>
  \<^verbatim>\<open>call_openai_with_retry\<close>: the loop \<^verbatim>\<open>for attempt in range(1, MAX_RETRIES + 1)\<close>,
  with the number of iterations left, the attempt number and \<^verbatim>\<open>wait\<close>. \<open>Inl\<close> is the
  message of the exception the function raises, \<open>Inr\<close> the text it returns.
  \<open>api attempt\<close> is the outcome of the request of that attempt and \<open>jitter attempt\<close>
  the value \<^verbatim>\<open>random.uniform(0, 0.5)\<close> drawn after it.
\<close>

fun retry_loop :: "nat \<Rightarrow> nat \<Rightarrow> rat \<Rightarrow> (nat \<Rightarrow> api_result) \<Rightarrow> (nat \<Rightarrow> rat)
    \<Rightarrow> (string + string) \<times> event list" where
  "retry_loop 0 attempt wait api jitter =
     (Inl ''Maximum retry attempts reached (rate limit / server error).'', [])"
| "retry_loop (Suc left) attempt wait api jitter =
     (case api attempt of
        Response text \<Rightarrow> (Inr (strip text), [Request attempt, Sleep REQUEST_COOLDOWN_SEC])
      | Failure msg \<Rightarrow>
          if is_rate_limit msg then
            (let hinted = WAIT_HINT_PATTERN_search msg;
                 sleep_for = (case hinted of
                                Some h \<Rightarrow> if h \<noteq> 0 then h + 1 / 2 else wait
                              | None \<Rightarrow> wait) + jitter attempt;
                 rest = retry_loop left (Suc attempt) (min (wait * (18 / 10)) 30) api jitter
             in (fst rest, Request attempt # Sleep sleep_for # snd rest))
          else if is_server_error msg then
            (let sleep_for = wait + jitter attempt;
                 rest = retry_loop left (Suc attempt) (min (wait * (18 / 10)) 30) api jitter
             in (fst rest, Request attempt # Sleep sleep_for # snd rest))
          else (Inl msg, [Request attempt]))"

definition call_openai_with_retry :: "(nat \<Rightarrow> api_result) \<Rightarrow> (nat \<Rightarrow> rat)
    \<Rightarrow> (string + string) \<times> event list" where
  "call_openai_with_retry api jitter = retry_loop MAX_RETRIES 1 2 api jitter"

text \<open>
  \<^verbatim>\<open>describe_object\<close> builds the prompt and the images and passes them on; what the
  service answers to them is the \<open>api\<close> of this object.
\<close>

definition describe_object :: "(nat \<Rightarrow> api_result) \<Rightarrow> (nat \<Rightarrow> rat) \<Rightarrow> string \<Rightarrow> path list \<Rightarrow> entry
    \<Rightarrow> (string + string) \<times> event list" where
  "describe_object api jitter obj_id image_paths meta = call_openai_with_retry api jitter"

section \<open>The run (autoOpenAIDescription.py, main)\<close>

fun join :: "string \<Rightarrow> string list \<Rightarrow> string" where
  "join sep [] = []"
| "join sep [x] = x"
| "join sep (x # y # ys) = x @ sep @ join sep (y # ys)"

definition metadata_csv_line :: "entry \<Rightarrow> string" where
  "metadata_csv_line meta =
     join '', '' (map (\<lambda>k. case meta k of None \<Rightarrow> ''No Data'' | Some v \<Rightarrow> v) FIELDS_ORDER)"

text \<open>
  A row of the result store; the \<^verbatim>\<open>object_id\<close> cell of a row read back from the file
  may be empty (NaN), which is \<open>None\<close>.
\<close>

record result_row =
  object_id :: "string option"
  description :: string
  metadata :: string

text \<open>
  The state of the loop of \<^verbatim>\<open>main\<close>: \<^verbatim>\<open>rows\<close>, \<^verbatim>\<open>done\<close>, \<^verbatim>\<open>processed_this_run\<close>, the
  content of the result file, and the requests and sleeps of each object described
  so far in this run.
\<close>

record run_state =
  rows :: "result_row list"
  done_ids :: "string set"
  processed_this_run :: nat
  saved :: "result_row list option"
  activity :: "(string \<times> event list) list"

definition error_placeholder :: "string \<Rightarrow> string" where
  "error_placeholder e = ''[Error during description: '' @ e @ '']''"

text \<open>The row \<^verbatim>\<open>main\<close> appends for an object, and the requests and sleeps it costs.\<close>

definition described :: "(string \<Rightarrow> nat \<Rightarrow> api_result) \<Rightarrow> (string \<Rightarrow> nat \<Rightarrow> rat)
    \<Rightarrow> (string \<times> path list) list \<Rightarrow> mapping list \<Rightarrow> string \<Rightarrow> (string + string) \<times> event list" where
  "described world jitter groups md_maps obj_id =
     describe_object (world obj_id) (jitter obj_id) obj_id (group_of groups obj_id)
       (build_metadata_for_object obj_id md_maps)"

definition row_for :: "(string \<Rightarrow> nat \<Rightarrow> api_result) \<Rightarrow> (string \<Rightarrow> nat \<Rightarrow> rat)
    \<Rightarrow> (string \<times> path list) list \<Rightarrow> mapping list \<Rightarrow> string \<Rightarrow> result_row" where
  "row_for world jitter groups md_maps obj_id =
     (let meta = build_metadata_for_object obj_id md_maps;
          meta_line = metadata_csv_line meta;
          description = (case fst (described world jitter groups md_maps obj_id) of
                           Inr text \<Rightarrow> text
                         | Inl e \<Rightarrow> error_placeholder e)
      in \<lparr>object_id = Some obj_id, description = description, metadata = meta_line\<rparr>)"

fun main_loop :: "(string \<Rightarrow> nat \<Rightarrow> api_result) \<Rightarrow> (string \<Rightarrow> nat \<Rightarrow> rat)
    \<Rightarrow> (string \<times> path list) list \<Rightarrow> mapping list \<Rightarrow> string list \<Rightarrow> run_state \<Rightarrow> run_state" where
  "main_loop world jitter groups md_maps [] st = st"
| "main_loop world jitter groups md_maps (obj_id # objs) st =
     (if obj_id \<in> done_ids st then main_loop world jitter groups md_maps objs st
      else if BATCH_LIMIT \<le> processed_this_run st then st
      else
        (let rows' = rows st @ [row_for world jitter groups md_maps obj_id]
         in main_loop world jitter groups md_maps objs
              \<lparr>rows = rows',
               done_ids = insert obj_id (done_ids st),
               processed_this_run = Suc (processed_this_run st),
               saved = Some rows',
               activity = activity st @ [(obj_id, snd (described world jitter groups md_maps obj_id))]\<rparr>))"

text \<open>
  \<^verbatim>\<open>done\<close> as \<^verbatim>\<open>main\<close> reconstructs it from the result file:
  \<^verbatim>\<open>{str(x).strip() for x in df_exist.get("object_id", []) if pd.notna(x)}\<close>.
\<close>

definition done_from_store :: "result_row list option \<Rightarrow> string set" where
  "done_from_store store =
     (case store of None \<Rightarrow> {}
      | Some df \<Rightarrow> set (concat (map (\<lambda>r. case object_id r of None \<Rightarrow> [] | Some x \<Rightarrow> [strip x]) df)))"

definition rows_from_store :: "result_row list option \<Rightarrow> result_row list" where
  "rows_from_store store = (case store of None \<Rightarrow> [] | Some df \<Rightarrow> df)"

text \<open>
  \<^verbatim>\<open>main\<close>, from the roots, the two sheets and the result file to the result file and
  the activity of the run. Without images it returns at once.
\<close>

definition main :: "(string \<Rightarrow> nat \<Rightarrow> api_result) \<Rightarrow> (string \<Rightarrow> nat \<Rightarrow> rat) \<Rightarrow> root_dir list
    \<Rightarrow> row list option \<Rightarrow> row list option \<Rightarrow> result_row list option
    \<Rightarrow> result_row list option \<times> (string \<times> event list) list" where
  "main world jitter dirs schreib aeg store =
     (let groups = collect_images_by_object dirs in
      if groups = [] then (store, [])
      else
        (let md_maps = [read_metadata_excel schreib, read_metadata_excel aeg];
             all_objs = sort (map fst groups);
             st = main_loop world jitter groups md_maps all_objs
                    \<lparr>rows = rows_from_store store, done_ids = done_from_store store,
                     processed_this_run = 0, saved = store, activity = []\<rparr>
         in (saved st, activity st)))"

text \<open>
  The run as the specification words it: the identifiers found, in sorted order, and
  among them the first \<^verbatim>\<open>BATCH_LIMIT\<close> that the result file does not hold yet.
\<close>

definition all_objs_of :: "root_dir list \<Rightarrow> string list" where
  "all_objs_of dirs = sort (map fst (collect_images_by_object dirs))"

definition newly_processed :: "root_dir list \<Rightarrow> result_row list option \<Rightarrow> string list" where
  "newly_processed dirs store =
     take BATCH_LIMIT (filter (\<lambda>obj_id. obj_id \<notin> done_from_store store) (all_objs_of dirs))"

text \<open>
  The objects the loop still describes from a given state: those of the list not yet
  in \<^verbatim>\<open>done\<close>, as many as the batch limit still allows.
\<close>

definition todo :: "string list \<Rightarrow> run_state \<Rightarrow> string list" where
  "todo objs st =
     take (BATCH_LIMIT - processed_this_run st) (filter (\<lambda>obj_id. obj_id \<notin> done_ids st) objs)"

section \<open>The retry loop as the specification words it\<close>

text \<open>
  A failure is transient when the code retries it: its message passes the rate-limit
  test or the server-error test. \<open>backoff n\<close> is \<^verbatim>\<open>wait\<close> after \<open>n\<close> transient
  failures: 2 seconds times 1.8 to the \<open>n\<close>, at most 30. \<open>pause\<close> is the time slept
  after attempt \<open>k\<close>; \<open>retries\<close> is a run of failed attempts, each followed by its
  pause; \<open>final_outcome\<close> is what an attempt that is not retried leaves.
\<close>

definition max_retries_message :: string where
  "max_retries_message = ''Maximum retry attempts reached (rate limit / server error).''"

definition transient :: "api_result \<Rightarrow> bool" where
  "transient r = (case r of Response text \<Rightarrow> False
                  | Failure msg \<Rightarrow> is_rate_limit msg \<or> is_server_error msg)"

definition backoff :: "nat \<Rightarrow> rat" where
  "backoff n = min (2 * (18 / 10) ^ n) 30"

definition pause :: "(nat \<Rightarrow> api_result) \<Rightarrow> (nat \<Rightarrow> rat) \<Rightarrow> nat \<Rightarrow> rat" where
  "pause api jitter k =
     (case api k of
        Response text \<Rightarrow> REQUEST_COOLDOWN_SEC
      | Failure msg \<Rightarrow>
          (if is_rate_limit msg then
             (case WAIT_HINT_PATTERN_search msg of
                Some h \<Rightarrow> if h \<noteq> 0 then h + 1 / 2 else backoff (k - 1)
              | None \<Rightarrow> backoff (k - 1))
           else backoff (k - 1)) + jitter k)"

definition retries :: "(nat \<Rightarrow> api_result) \<Rightarrow> (nat \<Rightarrow> rat) \<Rightarrow> nat \<Rightarrow> nat \<Rightarrow> event list" where
  "retries api jitter a b = concat (map (\<lambda>k. [Request k, Sleep (pause api jitter k)]) [a..<b])"

definition final_outcome :: "api_result \<Rightarrow> nat \<Rightarrow> (string + string) \<times> event list" where
  "final_outcome r k = (case r of
       Response text \<Rightarrow> (Inr (strip text), [Request k, Sleep REQUEST_COOLDOWN_SEC])
     | Failure msg \<Rightarrow> (Inl msg, [Request k]))"



definition two_objects :: "root_dir list" where
  "two_objects = [listing [image_file ''output/aeg'' ''1-1997-0457-000-000.jpg'' 1,
                           image_file ''output/aeg'' ''1-1997-0458-000-000.jpg'' 1]]"

definition failing_first :: "string \<Rightarrow> nat \<Rightarrow> api_result" where
  "failing_first obj_id k =
     (if obj_id = ''1-1997-0457'' then
        (if k < 3 then Failure ''Error code: 503'' else Failure ''invalid request'')
      else Response ''A typewriter.'')"

definition no_jitter :: "string \<Rightarrow> nat \<Rightarrow> rat" where
  "no_jitter obj_id k = 0"

section \<open>Two listings of the same files\<close>

text \<open>
  Two roots hold the same files when both exist or both do not and their listings are
  permutations of each other. The image files of one identifier in one root, and the
  candidate files of build_site.py in one root.
\<close>

definition same_files :: "root_dir \<Rightarrow> root_dir \<Rightarrow> bool" where
  "same_files d d' = (root_exists d = root_exists d' \<and> mset (rglob d) = mset (rglob d'))"

definition images_in_root :: "string \<Rightarrow> root_dir \<Rightarrow> path list" where
  "images_in_root obj_id d = (if root_exists d then filter (belongs_to obj_id) (rglob d) else [])"

definition candidate_paths :: "string \<Rightarrow> root_dir \<Rightarrow> path list" where
  "candidate_paths obj_id d = map fst (candidates_in_root (lower (obj_id @ ''-'')) d)"

text \<open>Two roots with a copy of one photo in each, the first root listed in two orders.\<close>

definition copies_in_two_roots :: "root_dir list" where
  "copies_in_two_roots =
     [listing [image_file ''output/aeg'' ''1-1997-0457-000-001.jpg'' 10,
               image_file ''output/aeg'' ''1-1997-0457-000-000.jpg'' 10],
      listing [image_file ''images/1997'' ''1-1997-0457-000-001.jpg'' 10]]"

definition copies_listed_otherwise :: "root_dir list" where
  "copies_listed_otherwise =
     [listing [image_file ''output/aeg'' ''1-1997-0457-000-000.jpg'' 10,
               image_file ''output/aeg'' ''1-1997-0457-000-001.jpg'' 10],
      listing [image_file ''images/1997'' ''1-1997-0457-000-001.jpg'' 10]]"

section \<open>Sequence numbers as the specification words them\<close>








section \<open>Facts about the string pieces\<close>

lemma sep_not_digit: "is_sep c \<Longrightarrow> \<not> is_digit c"
  by (auto simp: is_sep_def is_digit_def)

lemma digit_not_space: "is_digit c \<Longrightarrow> \<not> is_space c"
  by (auto simp: is_space_def is_digit_def Let_def)

lemma sep_not_space: "is_sep c \<Longrightarrow> \<not> is_space c"
  by (auto simp: is_sep_def is_space_def)

lemma digits1_run:
  assumes "p \<noteq> []" "list_all is_digit p" "\<not> is_digit c"
  shows "digits1 (p @ c # r) = Some (p, c # r)"
  using assms by (simp add: digits1_def list_all_iff takeWhile_append2 dropWhile_append2 takeWhile_eq_Nil_iff) 

lemma digitsN_exact:
  assumes "length y = n" "list_all is_digit y"
  shows "digitsN n (y @ r) = Some (y, r)"
  using assms by (simp add: digitsN_def)

lemma one_of_head: "P c \<Longrightarrow> one_of P (c # r) = Some r"
  by (simp add: one_of_def)

lemma lstrip_lead:
  assumes "list_all is_space l" "\<not> is_space c"
  shows "lstrip (l @ c # r) = c # r"
  using assms by (simp add: lstrip_def list_all_iff dropWhile_append2)

lemma rstrip_keep:
  assumes "x \<noteq> []" "\<not> is_space (last x)"
  shows "rstrip (x @ r) = x @ rstrip r"
proof -
  have hd: "\<not> is_space (hd (rev x))" using assms by (simp add: hd_rev)
  have nn: "rev x \<noteq> []" using assms by simp
  have a: "dropWhile is_space (rev x) = rev x"
    using hd nn by (cases "rev x") auto
  show ?thesis
    unfolding rstrip_def using a
    by (simp add: dropWhile_append)
qed

lemma search_triple:
  assumes p: "p \<noteq> []" "list_all is_digit p"
      and y: "length y = 4" "list_all is_digit y"
      and c: "length c = 4" "list_all is_digit c"
      and s: "is_sep s1" "is_sep s2"
  shows "OBJ_FROM_T1_PATTERN_search (p @ s1 # y @ s2 # c @ r) = Some (p, y, c)"
proof -
  have 1: "spaces0 (p @ s1 # y @ s2 # c @ r) = p @ s1 # y @ s2 # c @ r"
    using p by (cases p) (auto simp: spaces0_def digit_not_space)
  have 2: "digits1 (p @ s1 # y @ s2 # c @ r) = Some (p, s1 # y @ s2 # c @ r)"
    using p s by (intro digits1_run) (auto simp: sep_not_digit)
  have 3: "digitsN 4 (y @ s2 # c @ r) = Some (y, s2 # c @ r)"
    using y by (rule digitsN_exact)
  have 4: "digitsN 4 (c @ r) = Some (c, r)"
    using c by (rule digitsN_exact)
  show ?thesis
    unfolding OBJ_FROM_T1_PATTERN_search_def 1 2
    using s by (simp add: one_of_head 3 4)
qed

lemma strip_triple:
  assumes l: "list_all is_space l"
      and p: "p \<noteq> []" "list_all is_digit p"
      and c: "length c = 4" "list_all is_digit c"
  shows "strip (l @ p @ s1 # y @ s2 # c @ r) = p @ s1 # y @ s2 # c @ rstrip r"
proof -
  obtain d p' where pd: "p = d # p'" using p by (cases p) auto
  have nd: "\<not> is_space d" using p pd by (simp add: digit_not_space)
  have a: "lstrip (l @ p @ s1 # y @ s2 # c @ r) = p @ s1 # y @ s2 # c @ r"
    using lstrip_lead [OF l nd, of "p' @ s1 # y @ s2 # c @ r"] by (simp add: pd)
  have cne: "c \<noteq> []" using c by auto
  have lastc: "\<not> is_space (last c)"
    using c cne by (metis digit_not_space last_in_set list_all_iff)
  have b: "rstrip ((p @ s1 # y @ s2 # c) @ r) = (p @ s1 # y @ s2 # c) @ rstrip r"
    by (rule rstrip_keep) (use cne lastc in auto)
  show ?thesis unfolding strip_def a using b by simp
qed

lemma normalize_triple:
  assumes l: "list_all is_space l"
      and p: "p \<noteq> []" "list_all is_digit p"
      and y: "length y = 4" "list_all is_digit y"
      and c: "length c = 4" "list_all is_digit c"
      and s: "is_sep s1" "is_sep s2"
  shows "normalize_obj_id_from_excel (Some (l @ p @ s1 # y @ s2 # c @ r))
         = Some (p @ ''-'' @ y @ ''-'' @ c)"
  unfolding normalize_obj_id_from_excel_def
  by (simp add: strip_triple [OF l p c] search_triple [OF p y c s])

lemma digits1_SomeD:
  "digits1 s = Some (g, r) \<Longrightarrow> g \<noteq> [] \<and> list_all is_digit g \<and> s = g @ r"
  by (auto simp: digits1_def Let_def list_all_iff split: if_splits dest: set_takeWhileD)

lemma digitsN_SomeD:
  "digitsN n s = Some (g, r) \<Longrightarrow> length g = n \<and> list_all is_digit g \<and> s = g @ r"
  by (auto simp: digitsN_def split: if_splits)

lemma one_of_SomeD: "one_of P s = Some r \<Longrightarrow> \<exists>c. P c \<and> s = c # r"
  by (auto simp: one_of_def split: list.splits if_splits)

lemma search_SomeD:
  assumes "OBJ_FROM_T1_PATTERN_search s = Some (g1, g2, g3)"
  shows "\<exists>l s1 s2 r. s = l @ g1 @ s1 # g2 @ s2 # g3 @ r \<and> list_all is_space l \<and>
           g1 \<noteq> [] \<and> list_all is_digit g1 \<and> length g2 = 4 \<and> list_all is_digit g2 \<and>
           length g3 = 4 \<and> list_all is_digit g3 \<and> is_sep s1 \<and> is_sep s2"
proof -
  from assms obtain r1 r2 r3 r4 r5 where
    a: "digits1 (spaces0 s) = Some (g1, r1)" and b: "one_of is_sep r1 = Some r2"
    and c: "digitsN 4 r2 = Some (g2, r3)" and d: "one_of is_sep r3 = Some r4"
    and e: "digitsN 4 r4 = Some (g3, r5)"
    by (auto simp: OBJ_FROM_T1_PATTERN_search_def split: option.splits prod.splits)
  have s: "s = takeWhile is_space s @ spaces0 s" by (simp add: spaces0_def)
  have l: "list_all is_space (takeWhile is_space s)"
    by (auto simp: list_all_iff dest: set_takeWhileD)
  from b obtain s1 where s1: "is_sep s1" "r1 = s1 # r2" by (auto dest: one_of_SomeD)
  from d obtain s2 where s2: "is_sep s2" "r3 = s2 # r4" by (auto dest: one_of_SomeD)
  have "s = takeWhile is_space s @ g1 @ s1 # g2 @ s2 # g3 @ r5"
    using s digits1_SomeD [OF a] digitsN_SomeD [OF c] digitsN_SomeD [OF e] s1 s2
    by simp
  then show ?thesis
    using l digits1_SomeD [OF a] digitsN_SomeD [OF c] digitsN_SomeD [OF e] s1 s2
    by blast
qed


lemma strip_decompose:
  "\<exists>l t. raw = l @ strip raw @ t \<and> list_all is_space l \<and> list_all is_space t"
proof -
  let ?m = "dropWhile is_space raw"
  have a: "raw = takeWhile is_space raw @ ?m" by simp
  have b: "rev ?m = takeWhile is_space (rev ?m) @ dropWhile is_space (rev ?m)" by simp
  have c: "?m = strip raw @ rev (takeWhile is_space (rev ?m))"
    unfolding strip_def rstrip_def lstrip_def
    by (metis b rev_append rev_rev_ident)
  have "list_all is_space (takeWhile is_space raw)"
    by (auto simp: list_all_iff dest: set_takeWhileD)
  moreover have "list_all is_space (rev (takeWhile is_space (rev ?m)))"
    by (auto simp: list_all_iff dest: set_takeWhileD)
  ultimately show ?thesis using a c by metis
qed

lemma normalize_accepts_only:
  assumes "normalize_obj_id_from_excel v = Some r"
  shows "\<exists>raw l p s1 y s2 c t. v = Some raw \<and> raw = l @ p @ s1 # y @ s2 # c @ t \<and>
           list_all is_space l \<and> p \<noteq> [] \<and> list_all is_digit p \<and>
           length y = 4 \<and> list_all is_digit y \<and> length c = 4 \<and> list_all is_digit c \<and>
           is_sep s1 \<and> is_sep s2 \<and> r = p @ ''-'' @ y @ ''-'' @ c"
proof -
  from assms obtain raw p y c where v: "v = Some raw"
    and m: "OBJ_FROM_T1_PATTERN_search (strip raw) = Some (p, y, c)"
    and r: "r = p @ ''-'' @ y @ ''-'' @ c"
    by (auto simp: normalize_obj_id_from_excel_def split: option.splits)
  from search_SomeD [OF m] obtain l s1 s2 t where
    f: "strip raw = l @ p @ s1 # y @ s2 # c @ t" "list_all is_space l"
       "p \<noteq> []" "list_all is_digit p" "length y = 4" "list_all is_digit y"
       "length c = 4" "list_all is_digit c" "is_sep s1" "is_sep s2"
    by blast
  obtain l0 t0 where d: "raw = l0 @ strip raw @ t0" "list_all is_space l0"
    using strip_decompose by blast
  have "raw = (l0 @ l) @ p @ s1 # y @ s2 # c @ (t @ t0)"
    using d(1) f(1) by simp
  moreover have "list_all is_space (l0 @ l)" using d(2) f(2) by simp
  ultimately show ?thesis using v r f by blast
qed

section \<open>The canonical identifier\<close>

text \<open>
  C3. Two raw strings that carry the same prefix, four-digit year and four-digit code
  are normalised to the same canonical identifier \<open>prefix-year-code\<close>, whichever of
  \<^verbatim>\<open>/\<close> and \<^verbatim>\<open>-\<close> separates the groups, whatever whitespace leads, and
  whatever follows the code (a variant number, trailing whitespace). By
  \<open>normalize_accepts_only\<close> every accepted raw string has this shape.
\<close>

theorem normalize_same_triple_same_identifier:
  assumes "p \<noteq> []" "list_all is_digit p"
      and "length y = 4" "list_all is_digit y"
      and "length c = 4" "list_all is_digit c"
      and "is_sep a1" "is_sep a2" "is_sep b1" "is_sep b2"
      and "list_all is_space la" "list_all is_space lb"
  shows "normalize_obj_id_from_excel (Some (la @ p @ a1 # y @ a2 # c @ ta))
           = Some (p @ ''-'' @ y @ ''-'' @ c)
       \<and> normalize_obj_id_from_excel (Some (lb @ p @ b1 # y @ b2 # c @ tb))
           = normalize_obj_id_from_excel (Some (la @ p @ a1 # y @ a2 # c @ ta))"
  using assms by (simp add: normalize_triple)

theorem normalize_same_triple_same_identifier_witness:
  "normalize_obj_id_from_excel (Some ''  1/1997/1063 0 '') = Some ''1-1997-1063''
   \<and> normalize_obj_id_from_excel (Some ''1-1997-1063'')
       = normalize_obj_id_from_excel (Some ''  1/1997/1063 0 '')"
proof -
  have "normalize_obj_id_from_excel (Some (''  '' @ ''1'' @ CHR ''/'' # ''1997'' @ CHR ''/'' # ''1063'' @ '' 0 ''))
           = Some (''1'' @ ''-'' @ ''1997'' @ ''-'' @ ''1063'')
       \<and> normalize_obj_id_from_excel (Some ([] @ ''1'' @ CHR ''-'' # ''1997'' @ CHR ''-'' # ''1063'' @ []))
           = normalize_obj_id_from_excel (Some (''  '' @ ''1'' @ CHR ''/'' # ''1997'' @ CHR ''/'' # ''1063'' @ '' 0 ''))"
    by (rule normalize_same_triple_same_identifier)
       (simp_all add: is_digit_def is_sep_def is_space_def)
  then show ?thesis by simp
qed

section \<open>Sort keys\<close>










lemma sorted_key_sorted_wrt:
  "sorted (map f xs) = sorted_wrt (\<lambda>x y. f x \<le> f y) xs"
  by (simp add: sorted_map)


section \<open>Removing duplicates\<close>

lemma unique_by_filename_loop_out:
  "unique_by_filename_loop seen out ps = out @ unique_by_filename_loop seen [] ps"
proof (induction ps arbitrary: seen out)
  case Nil
  show ?case by simp
next
  case (Cons p ps)
  show ?case
    using Cons.IH [of "insert (lower (name p)) seen" "out @ [p]"]
          Cons.IH [of "insert (lower (name p)) seen" "[p]"]
          Cons.IH [of seen out]
    by (simp add: Let_def)
qed

lemma unique_by_filename_loop_filter:
  "filter (\<lambda>p. filename_key p = k) (unique_by_filename_loop seen [] ps) =
     (if k \<in> seen then []
      else case find (\<lambda>p. filename_key p = k) ps of None \<Rightarrow> [] | Some p \<Rightarrow> [p])"
proof (induction ps arbitrary: seen)
  case Nil
  show ?case by simp
next
  case (Cons p ps)
  show ?case
  proof (cases "lower (name p) \<in> seen")
    case True
    then show ?thesis using Cons.IH [of seen] by (auto simp: filename_key_def)
  next
    case False
    have "unique_by_filename_loop seen [] (p # ps)
            = p # unique_by_filename_loop (insert (lower (name p)) seen) [] ps"
      using False unique_by_filename_loop_out [of "insert (lower (name p)) seen" "[p]" ps]
      by simp
    then show ?thesis
      using False Cons.IH [of "insert (lower (name p)) seen"]
      by (auto simp: filename_key_def)
  qed
qed

lemma unique_by_filename_filter:
  "filter (\<lambda>p. filename_key p = k) (unique_by_filename ps) =
     (case find (\<lambda>p. filename_key p = k) ps of None \<Rightarrow> [] | Some p \<Rightarrow> [p])"
  by (simp add: unique_by_filename_def unique_by_filename_loop_filter)

lemma dedup_loop_out:
  "dedup_loop seen out cs = out @ dedup_loop seen [] cs"
proof (induction cs arbitrary: seen out)
  case Nil
  show ?case by simp
next
  case (Cons c cs)
  obtain p n sz where c: "c = (p, n, sz)" by (cases c) auto
  show ?case
    using Cons.IH [of "insert (n, sz) seen" "out @ [p]"]
          Cons.IH [of "insert (n, sz) seen" "[p]"]
          Cons.IH [of seen out]
    by (simp add: c Let_def)
qed

lemma dedup_loop_filter:
  "filter (\<lambda>p. name_size_key p = k)
     (dedup_loop seen [] (map (\<lambda>p. (p, lower (name p), size_or_minus1 p)) ps)) =
     (if k \<in> seen then []
      else case find (\<lambda>p. name_size_key p = k) ps of None \<Rightarrow> [] | Some p \<Rightarrow> [p])"
proof (induction ps arbitrary: seen)
  case Nil
  show ?case by simp
next
  case (Cons p ps)
  let ?w = "map (\<lambda>p. (p, lower (name p), size_or_minus1 p))"
  show ?case
  proof (cases "name_size_key p \<in> seen")
    case True
    then show ?thesis using Cons.IH [of seen] by (auto simp: name_size_key_def)
  next
    case False
    have "dedup_loop seen [] (?w (p # ps))
            = p # dedup_loop (insert (name_size_key p) seen) [] (?w ps)"
      using False dedup_loop_out [of "insert (name_size_key p) seen" "[p]" "?w ps"]
      by (simp add: name_size_key_def)
    then show ?thesis
      using False Cons.IH [of "insert (name_size_key p) seen"]
      by auto
  qed
qed

text \<open>The candidates of build_site.py are the matching files of the roots, each with its key.\<close>

lemma collect_candidates_paths:
  "collect_candidates obj_id roots =
     map (\<lambda>p. (p, lower (name p), size_or_minus1 p)) (map fst (collect_candidates obj_id roots))"
proof -
  have "candidates_in_root pre r =
          map (\<lambda>p. (p, lower (name p), size_or_minus1 p)) (map fst (candidates_in_root pre r))"
    for pre r
    by (simp add: candidates_in_root_def comp_def)
  then have "\<forall>r \<in> set roots. candidates_in_root (lower (obj_id @ ''-'')) r =
          map (\<lambda>p. (p, lower (name p), size_or_minus1 p))
              (map fst (candidates_in_root (lower (obj_id @ ''-'')) r))"
    by blast
  then show ?thesis
    unfolding collect_candidates_def
    by (induction roots) (simp_all add: map_concat comp_def)
qed

lemma filter_sort_key_singleton:
  "filter P xs = (case v of None \<Rightarrow> [] | Some p \<Rightarrow> [p]) \<Longrightarrow>
   filter P (sort_key f xs) = (case v of None \<Rightarrow> [] | Some p \<Rightarrow> [p])"
  by (simp add: filter_sort split: option.splits)

lemma collect_images_for_object_filter:
  "filter (\<lambda>p. name_size_key p = k) (collect_images_for_object obj_id roots) =
     (case find (\<lambda>p. name_size_key p = k) (map fst (collect_candidates obj_id roots)) of
        None \<Rightarrow> [] | Some p \<Rightarrow> [p])"
proof -
  have "filter (\<lambda>p. name_size_key p = k) (dedup_loop {} [] (collect_candidates obj_id roots)) =
     (case find (\<lambda>p. name_size_key p = k) (map fst (collect_candidates obj_id roots)) of
        None \<Rightarrow> [] | Some p \<Rightarrow> [p])"
    using dedup_loop_filter [of k "{}" "map fst (collect_candidates obj_id roots)"]
          collect_candidates_paths [of obj_id roots]
    by simp
  then show ?thesis
    unfolding collect_images_for_object_def by (rule filter_sort_key_singleton)
qed

section \<open>Grouping by identifier\<close>

lemma extract_object_id_nonempty: "extract_object_id n = Some k \<Longrightarrow> k \<noteq> []"
  by (auto simp: extract_object_id_def split: option.splits prod.splits)

lemma map_of_groups_append:
  "map_of (groups_append k p g) k' =
     (if k' = k then Some (group_of g k @ [p]) else map_of g k')"
  by (induction g) (auto simp: group_of_def)

lemma group_of_groups_append:
  "group_of (groups_append k p g) k' = group_of g k' @ (if k' = k then [p] else [])"
  by (simp add: group_of_def map_of_groups_append)

lemma keys_groups_append:
  "map fst (groups_append k p g) = (if k \<in> fst ` set g then map fst g else map fst g @ [k])"
proof (induction g)
  case Nil
  show ?case by simp
next
  case (Cons a g)
  obtain k' ps where a: "a = (k', ps)" by (cases a) auto
  show ?case using Cons by (auto simp: a)
qed

lemma distinct_groups_append:
  "distinct (map fst g) \<Longrightarrow> distinct (map fst (groups_append k p g))"
  by (simp add: keys_groups_append)

lemma no_empty_groups_append:
  "no_empty_group g \<Longrightarrow> no_empty_group (groups_append k p g)"
  by (induction g) (auto simp: no_empty_group_def split: if_splits)

lemma scan_path_cases:
  "scan_path g p = (case extract_object_id (name p) of
      Some k \<Rightarrow> if is_image_file p then groups_append k p g else g | None \<Rightarrow> g)"
  by (auto simp: scan_path_def split: option.splits dest: extract_object_id_nonempty)

lemma group_of_scan_path:
  "group_of (scan_path g p) k = group_of g k @ (if belongs_to k p then [p] else [])"
  by (auto simp: scan_path_cases belongs_to_def group_of_groups_append split: option.splits)

lemma no_empty_scan_path: "no_empty_group g \<Longrightarrow> no_empty_group (scan_path g p)"
  by (auto simp: scan_path_cases no_empty_groups_append split: option.splits)

lemma distinct_scan_path: "distinct (map fst g) \<Longrightarrow> distinct (map fst (scan_path g p))"
  by (auto simp: scan_path_cases distinct_groups_append split: option.splits)

lemma group_of_scan_paths:
  "group_of (foldl scan_path g ps) k = group_of g k @ filter (belongs_to k) ps"
  by (induction ps arbitrary: g) (simp_all add: group_of_scan_path)

lemma no_empty_scan_paths: "no_empty_group g \<Longrightarrow> no_empty_group (foldl scan_path g ps)"
  by (induction ps arbitrary: g) (simp_all add: no_empty_scan_path)

lemma distinct_scan_paths: "distinct (map fst g) \<Longrightarrow> distinct (map fst (foldl scan_path g ps))"
  by (induction ps arbitrary: g) (simp_all add: distinct_scan_path)

lemma group_of_scan_roots:
  "group_of (foldl scan_root g dirs) k =
     group_of g k @ filter (belongs_to k) (concat (map rglob (filter root_exists dirs)))"
  by (induction dirs arbitrary: g) (simp_all add: scan_root_def group_of_scan_paths)

lemma no_empty_scan_roots: "no_empty_group g \<Longrightarrow> no_empty_group (foldl scan_root g dirs)"
  by (induction dirs arbitrary: g) (simp_all add: scan_root_def no_empty_scan_paths)

lemma distinct_scan_roots: "distinct (map fst g) \<Longrightarrow> distinct (map fst (foldl scan_root g dirs))"
  by (induction dirs arbitrary: g) (simp_all add: scan_root_def distinct_scan_paths)

lemma no_empty_map_of:
  "no_empty_group g \<Longrightarrow> map_of g k = (if group_of g k = [] then None else Some (group_of g k))"
  by (auto simp: no_empty_group_def group_of_def split: option.splits dest!: map_of_SomeD)

lemma gathered_for_alt:
  "gathered_for dirs k = filter (belongs_to k) (concat (map rglob (filter root_exists dirs)))"
  by (simp add: gathered_for_def belongs_to_def [abs_def])

lemma map_of_scanned:
  "map_of (foldl scan_root [] dirs) k =
     (if gathered_for dirs k = [] then None else Some (gathered_for dirs k))"
proof -
  have "no_empty_group (foldl scan_root [] dirs)"
    by (rule no_empty_scan_roots) (simp add: no_empty_group_def)
  moreover have "group_of (foldl scan_root [] dirs) k = gathered_for dirs k"
  proof -
    have "group_of [] k = []" by (simp add: group_of_def)
    then show ?thesis by (simp add: group_of_scan_roots gathered_for_alt)
  qed
  ultimately show ?thesis by (simp add: no_empty_map_of)
qed

lemma map_of_map_values:
  "map_of (map (\<lambda>(k, v). (k, f v)) g) k = map_option f (map_of g k)"
  by (induction g) auto

lemma collect_images_by_object_lookup:
  "map_of (collect_images_by_object dirs) k =
     (if gathered_for dirs k = [] then None
      else Some (sort_key suffix_sort_key (unique_by_filename (gathered_for dirs k))))"
  by (simp add: collect_images_by_object_def map_of_map_values map_of_scanned)

lemma collect_images_by_object_keys:
  "map fst (collect_images_by_object dirs) = map fst (foldl scan_root [] dirs)"
  by (simp add: collect_images_by_object_def comp_def case_prod_beta)

lemma collect_images_by_object_distinct:
  "distinct (map fst (collect_images_by_object dirs))"
  unfolding collect_images_by_object_keys by (rule distinct_scan_roots) simp

text \<open>
  C1, as amended. Each script keeps, for every key among the files gathered for an
  object, exactly one entry: the first file with that key in root-list order.
  In build_site.py the key is the lowercased file name together with the size; in
  autoOpenAIDescription.py the key is the lowercased file name alone.
\<close>

theorem index_keeps_first_of_each_key:
  "filter (\<lambda>p. name_size_key p = k) (collect_images_for_object obj_id roots) =
     (case find (\<lambda>p. name_size_key p = k) (map fst (collect_candidates obj_id roots)) of
        None \<Rightarrow> [] | Some p \<Rightarrow> [p])
   \<and> filter (\<lambda>p. filename_key p = n) (group_of (collect_images_by_object dirs) obj_id) =
     (case find (\<lambda>p. filename_key p = n) (gathered_for dirs obj_id) of
        None \<Rightarrow> [] | Some p \<Rightarrow> [p])"
proof -
  have "filter (\<lambda>p. filename_key p = n) (group_of (collect_images_by_object dirs) obj_id) =
     (case find (\<lambda>p. filename_key p = n) (gathered_for dirs obj_id) of
        None \<Rightarrow> [] | Some p \<Rightarrow> [p])"
  proof (cases "gathered_for dirs obj_id = []")
    case True
    then show ?thesis by (simp add: group_of_def collect_images_by_object_lookup)
  next
    case False
    then have "group_of (collect_images_by_object dirs) obj_id =
            sort_key suffix_sort_key (unique_by_filename (gathered_for dirs obj_id))"
      by (simp add: group_of_def collect_images_by_object_lookup)
    then show ?thesis
      using filter_sort_key_singleton [OF unique_by_filename_filter]
      by simp
  qed
  then show ?thesis by (simp add: collect_images_for_object_filter)
qed


theorem index_keeps_first_of_each_key_witness:
  "filter (\<lambda>p. name_size_key p = (''1-1997-0457-000-000.jpg'', 10))
     (collect_images_for_object ''1-1997-0457''
        [listing [image_file ''output/aeg'' ''1-1997-0457-000-000.JPG'' 10],
         listing [image_file ''images/1997'' ''1-1997-0457-000-000.jpg'' 10]])
     = [image_file ''output/aeg'' ''1-1997-0457-000-000.JPG'' 10]
   \<and> filter (\<lambda>p. filename_key p = ''1-1997-0457-000-000.jpg'')
     (group_of (collect_images_by_object
        [listing [image_file ''output/aeg'' ''1-1997-0457-000-000.JPG'' 10],
         listing [image_file ''output/schreibmaschinen'' ''1-1997-0457-000-000.jpg'' 10]])
        ''1-1997-0457'')
     = [image_file ''output/aeg'' ''1-1997-0457-000-000.JPG'' 10]"
proof -
  have a: "find (\<lambda>p. name_size_key p = (''1-1997-0457-000-000.jpg'', 10))
       (map fst (collect_candidates ''1-1997-0457''
        [listing [image_file ''output/aeg'' ''1-1997-0457-000-000.JPG'' 10],
         listing [image_file ''images/1997'' ''1-1997-0457-000-000.jpg'' 10]]))
     = Some (image_file ''output/aeg'' ''1-1997-0457-000-000.JPG'' 10)"
    by code_simp
  have b: "find (\<lambda>p. filename_key p = ''1-1997-0457-000-000.jpg'')
       (gathered_for
        [listing [image_file ''output/aeg'' ''1-1997-0457-000-000.JPG'' 10],
         listing [image_file ''output/schreibmaschinen'' ''1-1997-0457-000-000.jpg'' 10]]
        ''1-1997-0457'')
     = Some (image_file ''output/aeg'' ''1-1997-0457-000-000.JPG'' 10)"
    by code_simp
  show ?thesis
    using index_keeps_first_of_each_key
      [of "(''1-1997-0457-000-000.jpg'', 10)" "''1-1997-0457''"
          "[listing [image_file ''output/aeg'' ''1-1997-0457-000-000.JPG'' 10],
            listing [image_file ''images/1997'' ''1-1997-0457-000-000.jpg'' 10]]"
          "''1-1997-0457-000-000.jpg''"
          "[listing [image_file ''output/aeg'' ''1-1997-0457-000-000.JPG'' 10],
            listing [image_file ''output/schreibmaschinen'' ''1-1997-0457-000-000.jpg'' 10]]"]
    unfolding a b by simp
qed

text \<open>
  C1 as stated fails for autoOpenAIDescription.py: two files of one object with the
  same name and different sizes have different (name, size) keys, and the index keeps
  only the first of them.
\<close>

theorem index_by_filename_ignores_size:
  "gathered_for [listing [image_file ''output/aeg'' ''1-1997-0457-000-000.jpg'' 10],
                 listing [image_file ''output/schreibmaschinen'' ''1-1997-0457-000-000.jpg'' 20]]
      ''1-1997-0457''
     = [image_file ''output/aeg'' ''1-1997-0457-000-000.jpg'' 10,
        image_file ''output/schreibmaschinen'' ''1-1997-0457-000-000.jpg'' 20]
   \<and> name_size_key (image_file ''output/aeg'' ''1-1997-0457-000-000.jpg'' 10)
       \<noteq> name_size_key (image_file ''output/schreibmaschinen'' ''1-1997-0457-000-000.jpg'' 20)
   \<and> group_of (collect_images_by_object
        [listing [image_file ''output/aeg'' ''1-1997-0457-000-000.jpg'' 10],
         listing [image_file ''output/schreibmaschinen'' ''1-1997-0457-000-000.jpg'' 20]])
      ''1-1997-0457''
     = [image_file ''output/aeg'' ''1-1997-0457-000-000.jpg'' 10]"
  by code_simp


section \<open>The order of a group\<close>


























section \<open>Where the patterns may match\<close>

lemma OBJ_RE_match_at_Nil: "OBJ_RE_match_at [] = None"
  by (simp add: OBJ_RE_match_at_def digits1_def)

lemma OBJ_RE_search_first:
  assumes "OBJ_RE_match_at (drop i s) = Some m"
      and "\<forall>j<i. OBJ_RE_match_at (drop j s) = None"
  shows "OBJ_RE_search s = Some m"
  using assms
proof (induction i arbitrary: s)
  case 0
  then show ?case by (cases s) simp_all
next
  case (Suc i)
  from Suc.prems(2) have z: "OBJ_RE_match_at s = None" by force
  show ?case
  proof (cases s)
    case Nil
    with Suc.prems(1) show ?thesis by (simp add: OBJ_RE_match_at_Nil)
  next
    case (Cons c cs)
    have a: "OBJ_RE_match_at (drop i cs) = Some m" using Suc.prems(1) Cons by simp
    have b: "\<forall>j<i. OBJ_RE_match_at (drop j cs) = None"
    proof (intro allI impI)
      fix j assume "j < i"
      then have "Suc j < Suc i" by simp
      with Suc.prems(2) have "OBJ_RE_match_at (drop (Suc j) s) = None" by blast
      then show "OBJ_RE_match_at (drop j cs) = None" using Cons by simp
    qed
    show ?thesis using Suc.IH [OF a b] z Cons by simp
  qed
qed

lemma OBJ_RE_search_SomeD:
  assumes "OBJ_RE_search s = Some m"
  shows "\<exists>i. OBJ_RE_match_at (drop i s) = Some m \<and> (\<forall>j<i. OBJ_RE_match_at (drop j s) = None)"
  using assms
proof (induction s)
  case Nil
  then show ?case by (simp add: OBJ_RE_match_at_Nil)
next
  case (Cons c cs)
  show ?case
  proof (cases "OBJ_RE_match_at (c # cs)")
    case (Some m')
    with Cons.prems have "m' = m" by simp
    with Some have "OBJ_RE_match_at (drop 0 (c # cs)) = Some m" by simp
    then show ?thesis by (metis not_less_zero)
  next
    case None
    with Cons.prems have "OBJ_RE_search cs = Some m" by simp
    from Cons.IH [OF this] obtain i where
      i: "OBJ_RE_match_at (drop i cs) = Some m" "\<forall>j<i. OBJ_RE_match_at (drop j cs) = None"
      by blast
    have "\<forall>j<Suc i. OBJ_RE_match_at (drop j (c # cs)) = None"
    proof (intro allI impI)
      fix j assume j: "j < Suc i"
      show "OBJ_RE_match_at (drop j (c # cs)) = None"
        using None i(2) j by (cases j) simp_all
    qed
    moreover have "OBJ_RE_match_at (drop (Suc i) (c # cs)) = Some m" using i(1) by simp
    ultimately show ?thesis by blast
  qed
qed

lemma lstrip_head: "lstrip s = c # r \<Longrightarrow> \<not> is_space c"
  unfolding lstrip_def by (metis hd_dropWhile list.sel(1) list.distinct(1))

lemma strip_head: 
  assumes "strip s = c # r" shows "\<not> is_space c"
proof -
  have "\<exists>t. lstrip s = strip s @ t"
    unfolding strip_def rstrip_def
    by (metis append_take_drop_id rev_append rev_rev_ident takeWhile_dropWhile_id)
  then obtain t where "lstrip s = c # (r @ t)" using assms by auto
  then show ?thesis by (rule lstrip_head)
qed

lemma digits1_non_digit: "\<not> is_digit c \<Longrightarrow> digits1 (c # r) = None"
  by (simp add: digits1_def)

lemma anchored_no_leading_digit:
  assumes "strip raw = c # r" "\<not> is_digit c"
  shows "normalize_obj_id_from_excel (Some raw) = None"
    and "parse_object_number_from_excel (Some raw) = None"
proof -
  have sp: "spaces0 (c # r) = c # r"
    using strip_head [OF assms(1)] by (simp add: spaces0_def)
  show "normalize_obj_id_from_excel (Some raw) = None"
    by (simp add: normalize_obj_id_from_excel_def OBJ_FROM_T1_PATTERN_search_def assms sp
        digits1_non_digit)
  show "parse_object_number_from_excel (Some raw) = None"
    by (simp add: parse_object_number_from_excel_def OBJECT_REGEX_match_def assms sp
        digits1_non_digit)
qed


text \<open>
  C9, as amended. copy_RelevantImages.py searches: the match at the first position of
  the string where its pattern matches gives the result, wherever that position is.
  The normalizer of autoOpenAIDescription.py and the parser of copy_images_from_excel.py
  are anchored: when the stripped string does not begin with a digit they find no
  identifier, whatever triples follow.
\<close>

theorem first_occurrence_only_where_unanchored:
  "(OBJ_RE_match_at (drop i s) = Some (g1, yr, g3, g4) \<and> (\<forall>j<i. OBJ_RE_match_at (drop j s) = None)
      \<longrightarrow> parse_object_number (Some s)
            = Some \<lparr>base_prefix = g1 @ ''-'' @ yr @ ''-'' @ g3 @ ''-'', year = yr\<rparr>)
   \<and> (strip raw = c # r \<and> \<not> is_digit c
      \<longrightarrow> normalize_obj_id_from_excel (Some raw) = None
          \<and> parse_object_number_from_excel (Some raw) = None)"
  using OBJ_RE_search_first [of i s "(g1, yr, g3, g4)"] anchored_no_leading_digit [of raw c r]
  by (simp add: parse_object_number_def)

theorem first_occurrence_only_where_unanchored_witness:
  "parse_object_number (Some ''Nr 1/1997/1063 0, 2/1998/0001 0'')
     = Some \<lparr>base_prefix = ''1-1997-1063-'', year = ''1997''\<rparr>
   \<and> normalize_obj_id_from_excel (Some ''Nr 1/1997/1063 0'') = None
   \<and> parse_object_number_from_excel (Some ''Nr 1/1997/1063 0'') = None"
proof -
  have a: "OBJ_RE_match_at (drop 3 ''Nr 1/1997/1063 0, 2/1998/0001 0'') = Some (''1'', ''1997'', ''1063'', ''0'')"
    by code_simp
  have b: "\<forall>j<3. OBJ_RE_match_at (drop j ''Nr 1/1997/1063 0, 2/1998/0001 0'') = None"
  proof (intro allI impI)
    fix j :: nat assume "j < 3"
    then consider "j = 0" | "j = 1" | "j = 2" by linarith
    then show "OBJ_RE_match_at (drop j ''Nr 1/1997/1063 0, 2/1998/0001 0'') = None"
    proof cases
      case 1 then show ?thesis by (simp add: OBJ_RE_match_at_def digits1_def is_digit_def)
    next
      case 2 then show ?thesis by (simp add: OBJ_RE_match_at_def digits1_def is_digit_def)
    next
      case 3 then show ?thesis by (simp add: OBJ_RE_match_at_def digits1_def is_digit_def)
    qed
  qed
  have c: "strip ''Nr 1/1997/1063 0'' = CHR ''N'' # ''r 1/1997/1063 0''" by code_simp
  have d: "\<not> is_digit CHR ''N''" by (simp add: is_digit_def)
  show ?thesis
    using first_occurrence_only_where_unanchored [of 3 "''Nr 1/1997/1063 0, 2/1998/0001 0''" "''1''" "''1997''" "''1063''" "''0''"
                         "''Nr 1/1997/1063 0''" "CHR ''N''" "''r 1/1997/1063 0''"] a b c d
    by simp
qed

text \<open>
  C9 as stated fails for \<^verbatim>\<open>normalize_obj_id_from_excel\<close>: a string with two triples, the
  first not at the start, has no identifier.
\<close>

theorem anchored_normalizer_misses_later_triple:
  "normalize_obj_id_from_excel (Some ''Nr 1/1997/1063 0, 2/1998/0001 0'') = None
   \<and> normalize_obj_id_from_excel (Some ''1/1997/1063 0'') = Some ''1-1997-1063''"
  by code_simp

section \<open>Items without an identifier\<close>

lemma foldl_filter_skip:
  assumes "\<And>a x. x \<in> set xs \<Longrightarrow> \<not> P x \<Longrightarrow> f a x = a"
  shows "foldl f a (filter P xs) = foldl f a xs"
  using assms by (induction xs arbitrary: a) auto

lemma read_row_unparseable:
  "normalize_obj_id_from_excel (row ''t1'') = None \<Longrightarrow> read_row mapping row = mapping"
  by (simp add: read_row_def)

lemma normalize_nonempty: "normalize_obj_id_from_excel v = Some k \<Longrightarrow> k \<noteq> []"
  by (auto simp: normalize_obj_id_from_excel_def split: option.splits prod.splits)

lemma dom_read_row:
  "dom (read_row mapping row) =
     dom mapping \<union> {k. normalize_obj_id_from_excel (row ''t1'') = Some k}"
  by (auto simp: read_row_def Let_def split: option.splits if_splits dest: normalize_nonempty)

lemma dom_read_rows:
  "dom (foldl read_row mapping sheet_rows) =
     dom mapping \<union> {k. \<exists>row \<in> set sheet_rows. normalize_obj_id_from_excel (row ''t1'') = Some k}"
  by (induction sheet_rows arbitrary: mapping) (auto simp: dom_read_row)

lemma scan_path_unparseable:
  "extract_object_id (name p) = None \<Longrightarrow> scan_path g p = g"
  by (simp add: scan_path_def)

lemma scan_root_without_unparseable:
  "scan_root g (without_unparseable d) = scan_root g d"
proof -
  have "foldl scan_path g (filter parseable_file (rglob d)) = foldl scan_path g (rglob d)"
    by (rule foldl_filter_skip) (simp add: parseable_file_def scan_path_unparseable)
  then show ?thesis by (simp add: scan_root_def without_unparseable_def)
qed

lemma scan_roots_without_unparseable:
  "foldl scan_root g (map without_unparseable dirs) = foldl scan_root g dirs"
  by (induction dirs arbitrary: g) (simp_all add: scan_root_without_unparseable)

lemma unique_by_filename_loop_subset:
  "set (unique_by_filename_loop seen out ps) \<subseteq> set out \<union> set ps"
proof (induction ps arbitrary: seen out)
  case Nil
  show ?case by simp
next
  case (Cons p ps)
  show ?case
    using Cons.IH [of seen out] Cons.IH [of "insert (lower (name p)) seen" "out @ [p]"]
    by (auto simp: Let_def)
qed

lemma unique_by_filename_subset: "set (unique_by_filename ps) \<subseteq> set ps"
  using unique_by_filename_loop_subset [of "{}" "[]" ps] by (simp add: unique_by_filename_def)

lemma index_member_has_identifier:
  assumes "(k, ps) \<in> set (collect_images_by_object dirs)" "p \<in> set ps"
  shows "extract_object_id (name p) = Some k"
proof -
  have "map_of (collect_images_by_object dirs) k = Some ps"
    using assms(1) collect_images_by_object_distinct by (simp add: map_of_is_SomeI)
  then have "ps = sort_key suffix_sort_key (unique_by_filename (gathered_for dirs k))"
    by (simp add: collect_images_by_object_lookup split: if_splits)
  then have "p \<in> set (gathered_for dirs k)"
    using assms(2) unique_by_filename_subset by auto
  then show ?thesis by (simp add: gathered_for_def)
qed


text \<open>
  C8. A row whose object-number cell has no identifier and a file whose name has none
  leave no trace: reading the sheet gives the same mapping as reading it without those
  rows, the keys of the mapping are exactly the identifiers derived from the rows, the
  index is the same as the index of the roots without those files, and every file in
  the index stands under the identifier derived from its own name. Both functions are
  total: neither has a failing branch.
\<close>

theorem unparseable_items_are_skipped:
  "read_metadata_excel (Some sheet_rows) = read_metadata_excel (Some (filter parseable_row sheet_rows))
   \<and> dom (read_metadata_excel (Some sheet_rows))
       = {k. \<exists>row \<in> set sheet_rows. normalize_obj_id_from_excel (row ''t1'') = Some k}
   \<and> collect_images_by_object dirs = collect_images_by_object (map without_unparseable dirs)
   \<and> (\<forall>k ps p. (k, ps) \<in> set (collect_images_by_object dirs) \<and> p \<in> set ps
         \<longrightarrow> extract_object_id (name p) = Some k)"
proof -
  have a: "foldl read_row Map.empty (filter parseable_row sheet_rows) = foldl read_row Map.empty sheet_rows"
    by (rule foldl_filter_skip) (simp add: parseable_row_def read_row_unparseable)
  have b: "collect_images_by_object (map without_unparseable dirs) = collect_images_by_object dirs"
    by (simp add: collect_images_by_object_def scan_roots_without_unparseable)
  show ?thesis
    using a b index_member_has_identifier
    by (simp add: read_metadata_excel_def dom_read_rows) blast
qed

theorem unparseable_items_are_skipped_witness:
  "read_metadata_excel (Some [map_of [(''t1'', ''no number'')], map_of [(''t1'', ''1/1997/1063 0'')]])
     = read_metadata_excel (Some [map_of [(''t1'', ''1/1997/1063 0'')]])
   \<and> dom (read_metadata_excel (Some [map_of [(''t1'', ''no number'')], map_of [(''t1'', ''1/1997/1063 0'')]]))
     = {''1-1997-1063''}
   \<and> collect_images_by_object [listing [image_file ''d'' ''notes.jpg'' 3, image_file ''d'' ''1-1997-0457-000-000.jpg'' 5]]
     = collect_images_by_object [listing [image_file ''d'' ''1-1997-0457-000-000.jpg'' 5]]
   \<and> extract_object_id (name (image_file ''d'' ''1-1997-0457-000-000.jpg'' 5)) = Some ''1-1997-0457''"
proof -
  let ?bad = "map_of [(''t1'', ''no number'')] :: row"
  let ?good = "map_of [(''t1'', ''1/1997/1063 0'')] :: row"
  let ?f = "image_file ''d'' ''1-1997-0457-000-000.jpg'' 5"
  let ?n = "image_file ''d'' ''notes.jpg'' 3"
  have n1: "normalize_obj_id_from_excel (Some ''no number'') = None" by code_simp
  have n2: "normalize_obj_id_from_excel (Some ''1/1997/1063 0'') = Some ''1-1997-1063''" by code_simp
  have e1: "extract_object_id ''notes.jpg'' = None" by code_simp
  have e2: "extract_object_id ''1-1997-0457-000-000.jpg'' = Some ''1-1997-0457''" by code_simp
  have sheet_rows: "filter parseable_row [?bad, ?good] = [?good]"
    by (simp add: parseable_row_def n1 n2)
  have dirs: "map without_unparseable [listing [?n, ?f]] = [listing [?f]]"
    by (simp add: without_unparseable_def listing_def parseable_file_def image_file_def e1 e2)
  have mem: "collect_images_by_object [listing [?n, ?f]] = [(''1-1997-0457'', [?f])]"
    by code_simp
  note c8 = unparseable_items_are_skipped [of "[?bad, ?good]" "[listing [?n, ?f]]"]
  have 1: "read_metadata_excel (Some [?bad, ?good]) = read_metadata_excel (Some [?good])"
    using c8 [THEN conjunct1] unfolding sheet_rows .
  have 2: "dom (read_metadata_excel (Some [?bad, ?good])) = {''1-1997-1063''}"
    using c8 [THEN conjunct2, THEN conjunct1] by (simp add: n1 n2)
  have 3: "collect_images_by_object [listing [?n, ?f]] = collect_images_by_object [listing [?f]]"
    using c8 [THEN conjunct2, THEN conjunct2, THEN conjunct1] unfolding dirs .
  have "(''1-1997-0457'', [?f]) \<in> set (collect_images_by_object [listing [?n, ?f]]) \<and> ?f \<in> set [?f]"
    unfolding mem by simp
  then have 4: "extract_object_id (name ?f) = Some ''1-1997-0457''"
    using c8 [THEN conjunct2, THEN conjunct2, THEN conjunct2] by blast
  show ?thesis using 1 2 3 4 by blast
qed

section \<open>Merging metadata\<close>

lemma FIELDS_distinct: "distinct FIELDS_ORDER"
  by (simp add: FIELDS_ORDER_def)

lemma dom_initial_base: "dom initial_base = set FIELDS_ORDER"
  by (simp add: initial_base_def dom_map_of_conv_image_fst image_image)

lemma initial_base_field: "k \<in> set FIELDS_ORDER \<Longrightarrow> initial_base k = Some ''No Data''"
  unfolding initial_base_def
  by (rule map_of_is_SomeI) (auto simp: comp_def FIELDS_distinct)

text \<open>What the inner loop does to one field.\<close>

lemma fill_fields_other: "k \<notin> set ks \<Longrightarrow> fill_fields found ks base k = base k"
  by (induction ks arbitrary: base) auto

lemma fill_fields_field:
  assumes "distinct ks" "k \<in> set ks"
  shows "fill_fields found ks base k =
           (if base k = Some ''No Data'' then
              (case offered found k of Some v \<Rightarrow> Some v | None \<Rightarrow> base k)
            else base k)"
  using assms
proof (induction ks arbitrary: base)
  case Nil
  then show ?case by simp
next
  case (Cons a ks)
  show ?case
  proof (cases "a = k")
    case True
    then have "k \<notin> set ks" using Cons.prems by simp
    then show ?thesis using True by (simp add: fill_fields_other offered_def)
  next
    case False
    then have "k \<in> set ks" "distinct ks" using Cons.prems by auto
    then show ?thesis using False Cons.IH by (auto split: option.splits)
  qed
qed

lemma dom_fill_fields: "set ks \<subseteq> dom base \<Longrightarrow> dom (fill_fields found ks base) = dom base"
proof (induction ks arbitrary: base)
  case Nil
  show ?case by simp
next
  case (Cons a ks)
  have "a \<in> dom base" using Cons.prems by simp
  then have d: "dom (base(a \<mapsto> v)) = dom base" for v by auto
  show ?case using Cons.prems Cons.IH d by simp
qed

lemma offered_not_sentinel: "offered found k = Some v \<Longrightarrow> v \<noteq> ''No Data''"
  by (auto simp: offered_def split: if_splits)

lemma all_filled_field:
  "all_filled base \<Longrightarrow> k \<in> set FIELDS_ORDER \<Longrightarrow> base k \<noteq> Some ''No Data''"
  by (simp add: all_filled_def list_all_iff)

lemma merge_maps_field:
  assumes "k \<in> set FIELDS_ORDER"
  shows "fst (merge_maps obj_id maps (base, n)) k =
           (if base k = Some ''No Data'' then
              (case first_offer obj_id k maps of Some v \<Rightarrow> Some v | None \<Rightarrow> base k)
            else base k)"
proof (induction maps arbitrary: base n)
  case Nil
  show ?case by simp
next
  case (Cons mp mps)
  show ?case
  proof (cases "mp obj_id")
    case None
    then show ?thesis using Cons.IH [of base "Suc n"] by simp
  next
    case (Some found)
    let ?b = "fill_fields found FIELDS_ORDER base"
    have b: "?b k = (if base k = Some ''No Data'' then
               (case offered found k of Some v \<Rightarrow> Some v | None \<Rightarrow> base k) else base k)"
      using fill_fields_field [OF FIELDS_distinct assms] .
    show ?thesis
    proof (cases "all_filled ?b")
      case True
      have r: "fst (merge_maps obj_id (mp # mps) (base, n)) = ?b"
        using Some True by simp
      have "?b k \<noteq> Some ''No Data''" using True assms by (rule all_filled_field)
      then show ?thesis unfolding r using b Some
        by (auto split: option.splits if_splits)
    next
      case False
      have r: "fst (merge_maps obj_id (mp # mps) (base, n)) = fst (merge_maps obj_id mps (?b, Suc n))"
        using Some False by simp
      show ?thesis unfolding r Cons.IH [of ?b "Suc n"] using b Some
        by (auto split: option.splits if_splits dest: offered_not_sentinel)
    qed
  qed
qed

lemma dom_merge_maps:
  "set FIELDS_ORDER \<subseteq> dom base \<Longrightarrow> dom (fst (merge_maps obj_id maps (base, n))) = dom base"
proof (induction maps arbitrary: base n)
  case Nil
  show ?case by simp
next
  case (Cons mp mps)
  show ?case
  proof (cases "mp obj_id")
    case None
    then show ?thesis using Cons.IH [OF Cons.prems, of "Suc n"] by simp
  next
    case (Some found)
    let ?b = "fill_fields found FIELDS_ORDER base"
    have d: "dom ?b = dom base" using Cons.prems by (rule dom_fill_fields)
    then have "set FIELDS_ORDER \<subseteq> dom ?b" using Cons.prems by simp
    from Cons.IH [OF this, of "Suc n"] show ?thesis using Some d by (simp add: Let_def)
  qed
qed

lemma merge_maps_stops:
  assumes "all_filled (fst (merge_maps obj_id pre (base, n)))" "\<not> all_filled base"
  shows "merge_maps obj_id (pre @ post) (base, n) = merge_maps obj_id pre (base, n)"
  using assms
proof (induction pre arbitrary: base n)
  case Nil
  then show ?case by simp
next
  case (Cons mp pre)
  show ?case
  proof (cases "mp obj_id")
    case None
    then show ?thesis using Cons.IH [of base "Suc n"] Cons.prems by simp
  next
    case (Some found)
    let ?b = "fill_fields found FIELDS_ORDER base"
    show ?thesis
    proof (cases "all_filled ?b")
      case True
      then show ?thesis using Some by simp
    next
      case False
      then show ?thesis using Some Cons.IH [of ?b "Suc n"] Cons.prems(1) by simp
    qed
  qed
qed

lemma initial_base_not_filled: "\<not> all_filled initial_base"
  using all_filled_field [of initial_base "''InventoryNo''"] initial_base_field [of "''InventoryNo''"]
  by (auto simp: FIELDS_ORDER_def)

lemma first_offer_not_sentinel: "first_offer obj_id k maps = Some v \<Longrightarrow> v \<noteq> ''No Data''"
  by (induction maps) (auto split: option.splits dest: offered_not_sentinel)

lemma build_metadata_field:
  assumes "k \<in> set FIELDS_ORDER"
  shows "build_metadata_for_object obj_id maps k = Some (merged_value obj_id k maps)"
proof -
  let ?m = "fst (merge_maps obj_id maps (initial_base, 0))"
  have m: "?m j = (case first_offer obj_id j maps of Some v \<Rightarrow> Some v | None \<Rightarrow> Some ''No Data'')"
    if "j \<in> set FIELDS_ORDER" for j
    using merge_maps_field [OF that, of obj_id maps initial_base 0] initial_base_field [OF that]
    by (simp split: option.splits)
  have inv: "''InventoryNo'' \<in> set FIELDS_ORDER" by (simp add: FIELDS_ORDER_def)
  show ?thesis
    using m [OF assms] m [OF inv]
    by (auto simp: build_metadata_for_object_def merged_value_def Let_def
        split: option.splits dest: first_offer_not_sentinel)
qed

lemma dom_build_metadata: "dom (build_metadata_for_object obj_id maps) = set FIELDS_ORDER"
proof -
  have "dom (fst (merge_maps obj_id maps (initial_base, 0))) = set FIELDS_ORDER"
    using dom_merge_maps [of initial_base obj_id maps 0] by (simp add: dom_initial_base)
  moreover have "''InventoryNo'' \<in> set FIELDS_ORDER" by (simp add: FIELDS_ORDER_def)
  ultimately show ?thesis
    by (auto simp: build_metadata_for_object_def Let_def)
qed


text \<open>
  C4. The record built for an identifier has exactly the fixed fields. Each field holds
  the first value offered, in priority order, by a source that knows the identifier;
  a later source therefore never replaces it. A field no source offers holds the
  sentinel, except the inventory number, which then holds the identifier. Once a
  prefix of the sources has filled every field, the loop has left: the sources after
  it are not visited, so neither the record nor the number of visited sources changes.
\<close>

theorem merge_fills_by_priority:
  "dom (build_metadata_for_object obj_id maps) = set FIELDS_ORDER
   \<and> (\<forall>k \<in> set FIELDS_ORDER.
         build_metadata_for_object obj_id maps k = Some (merged_value obj_id k maps))
   \<and> (all_filled (fst (merge_maps obj_id pre (initial_base, 0)))
        \<longrightarrow> merge_maps obj_id (pre @ post) (initial_base, 0)
            = merge_maps obj_id pre (initial_base, 0))"
  using merge_maps_stops [of obj_id pre initial_base 0 post]
  by (simp add: dom_build_metadata build_metadata_field initial_base_not_filled)

theorem merge_fills_by_priority_witness:
  "build_metadata_for_object ''1-1997-1063''
     [[''1-1997-1063'' \<mapsto> map_of [(''Contributors'', ''Olympia''), (''Materials'', ''No Data'')]],
      [''1-1997-1063'' \<mapsto> map_of [(''Contributors'', ''AEG''), (''Materials'', ''steel'')]]]
     ''Contributors'' = Some ''Olympia''
   \<and> build_metadata_for_object ''1-1997-1063''
     [[''1-1997-1063'' \<mapsto> map_of [(''Contributors'', ''Olympia''), (''Materials'', ''No Data'')]],
      [''1-1997-1063'' \<mapsto> map_of [(''Contributors'', ''AEG''), (''Materials'', ''steel'')]]]
     ''Materials'' = Some ''steel''
   \<and> build_metadata_for_object ''1-1997-1063''
     [[''1-1997-1063'' \<mapsto> map_of [(''Contributors'', ''Olympia''), (''Materials'', ''No Data'')]],
      [''1-1997-1063'' \<mapsto> map_of [(''Contributors'', ''AEG''), (''Materials'', ''steel'')]]]
     ''InventoryNo'' = Some ''1-1997-1063''
   \<and> merge_maps ''1-1997-1063''
       ([[''1-1997-1063'' \<mapsto> map_of (map (\<lambda>k. (k, ''x'')) FIELDS_ORDER)]]
        @ [[''1-1997-1063'' \<mapsto> map_of [(''Contributors'', ''AEG'')]]]) (initial_base, 0)
     = merge_maps ''1-1997-1063''
       [[''1-1997-1063'' \<mapsto> map_of (map (\<lambda>k. (k, ''x'')) FIELDS_ORDER)]] (initial_base, 0)"
proof -
  let ?a = "[''1-1997-1063'' \<mapsto> map_of [(''Contributors'', ''Olympia''), (''Materials'', ''No Data'')]] :: mapping"
  let ?b = "[''1-1997-1063'' \<mapsto> map_of [(''Contributors'', ''AEG''), (''Materials'', ''steel'')]] :: mapping"
  let ?full = "[''1-1997-1063'' \<mapsto> map_of (map (\<lambda>k. (k, ''x'')) FIELDS_ORDER)] :: mapping"
  let ?c = "[''1-1997-1063'' \<mapsto> map_of [(''Contributors'', ''AEG'')]] :: mapping"
  have f: "''Contributors'' \<in> set FIELDS_ORDER" "''Materials'' \<in> set FIELDS_ORDER"
          "''InventoryNo'' \<in> set FIELDS_ORDER"
    by (simp_all add: FIELDS_ORDER_def)
  have v1: "merged_value ''1-1997-1063'' ''Contributors'' [?a, ?b] = ''Olympia''" by code_simp
  have v2: "merged_value ''1-1997-1063'' ''Materials'' [?a, ?b] = ''steel''" by code_simp
  have v3: "merged_value ''1-1997-1063'' ''InventoryNo'' [?a, ?b] = ''1-1997-1063''" by code_simp
  have af: "all_filled (fst (merge_maps ''1-1997-1063'' [?full] (initial_base, 0)))" by code_simp
  note t = merge_fills_by_priority [of "''1-1997-1063''" "[?a, ?b]" "[?full]" "[?c]"]
  have "\<forall>k \<in> set FIELDS_ORDER.
         build_metadata_for_object ''1-1997-1063'' [?a, ?b] k
           = Some (merged_value ''1-1997-1063'' k [?a, ?b])"
    using t by blast
  then have 1: "build_metadata_for_object ''1-1997-1063'' [?a, ?b] ''Contributors'' = Some ''Olympia''"
    and 2: "build_metadata_for_object ''1-1997-1063'' [?a, ?b] ''Materials'' = Some ''steel''"
    and 3: "build_metadata_for_object ''1-1997-1063'' [?a, ?b] ''InventoryNo'' = Some ''1-1997-1063''"
    using f v1 v2 v3 by metis+
  have 4: "merge_maps ''1-1997-1063'' ([?full] @ [?c]) (initial_base, 0)
             = merge_maps ''1-1997-1063'' [?full] (initial_base, 0)"
    using t af by blast
  show ?thesis using 1 2 3 4 by blast
qed

section \<open>The loop of the run\<close>

lemma todo_Nil: "todo [] st = []"
  by (simp add: todo_def)

lemma todo_done: "obj_id \<in> done_ids st \<Longrightarrow> todo (obj_id # objs) st = todo objs st"
  by (simp add: todo_def)

lemma todo_limit: "BATCH_LIMIT \<le> processed_this_run st \<Longrightarrow> todo objs st = []"
  by (simp add: todo_def)

lemma todo_step:
  assumes "obj_id \<notin> done_ids st" "\<not> BATCH_LIMIT \<le> processed_this_run st" "obj_id \<notin> set objs"
      and "done_ids st' = insert obj_id (done_ids st)"
      and "processed_this_run st' = Suc (processed_this_run st)"
  shows "todo (obj_id # objs) st = obj_id # todo objs st'"
proof -
  have f: "filter (\<lambda>x. x \<noteq> obj_id \<and> x \<notin> done_ids st) objs = filter (\<lambda>x. x \<notin> done_ids st) objs"
    using assms(3) by (intro filter_cong) auto
  obtain m where m: "BATCH_LIMIT - processed_this_run st = Suc m"
    using assms(2) by (cases "BATCH_LIMIT - processed_this_run st") auto
  then have m': "BATCH_LIMIT - Suc (processed_this_run st) = m" by simp
  show ?thesis
    using assms(1) by (simp add: todo_def assms(4,5) f m m')
qed

lemma main_loop_result:
  assumes "distinct objs"
  shows "rows (main_loop w j g md objs st) = rows st @ map (row_for w j g md) (todo objs st)
       \<and> done_ids (main_loop w j g md objs st) = done_ids st \<union> set (todo objs st)
       \<and> processed_this_run (main_loop w j g md objs st)
           = processed_this_run st + length (todo objs st)
       \<and> saved (main_loop w j g md objs st)
           = (if todo objs st = [] then saved st
              else Some (rows st @ map (row_for w j g md) (todo objs st)))
       \<and> activity (main_loop w j g md objs st)
           = activity st @ map (\<lambda>obj_id. (obj_id, snd (described w j g md obj_id))) (todo objs st)"
  using assms
proof (induction objs arbitrary: st)
  case Nil
  show ?case by (simp add: todo_Nil)
next
  case (Cons obj_id objs)
  have d: "distinct objs" and n: "obj_id \<notin> set objs" using Cons.prems by auto
  show ?case
  proof (cases "obj_id \<in> done_ids st")
    case True
    then show ?thesis using Cons.IH [OF d, of st] by (simp add: todo_done)
  next
    case False
    show ?thesis
    proof (cases "BATCH_LIMIT \<le> processed_this_run st")
      case True
      then show ?thesis using False by (simp add: todo_limit)
    next
      case lim: False
      let ?st' = "\<lparr>rows = rows st @ [row_for w j g md obj_id],
               done_ids = insert obj_id (done_ids st),
               processed_this_run = Suc (processed_this_run st),
               saved = Some (rows st @ [row_for w j g md obj_id]),
               activity = activity st @ [(obj_id, snd (described w j g md obj_id))]\<rparr>"
      have t: "todo (obj_id # objs) st = obj_id # todo objs ?st'"
        by (rule todo_step [OF False lim n]) simp_all
      have r: "main_loop w j g md (obj_id # objs) st = main_loop w j g md objs ?st'"
        using False lim by (simp add: Let_def)
      show ?thesis unfolding r t using Cons.IH [OF d, of ?st'] by simp
    qed
  qed
qed

lemma all_objs_distinct: "distinct (all_objs_of dirs)"
  by (simp add: all_objs_of_def collect_images_by_object_distinct)

lemma todo_initial:
  "todo (all_objs_of dirs)
     \<lparr>rows = r, done_ids = done_from_store store, processed_this_run = 0, saved = s, activity = a\<rparr>
   = newly_processed dirs store"
  by (simp add: todo_def newly_processed_def)

lemma no_groups_nothing_new:
  "collect_images_by_object dirs = [] \<Longrightarrow> newly_processed dirs store = []"
  by (simp add: newly_processed_def all_objs_of_def)

lemma main_result:
  "main w j dirs schreib aeg store =
     (if newly_processed dirs store = [] then store
      else Some (rows_from_store store
                 @ map (row_for w j (collect_images_by_object dirs)
                          [read_metadata_excel schreib, read_metadata_excel aeg])
                       (newly_processed dirs store)),
      map (\<lambda>obj_id. (obj_id, snd (described w j (collect_images_by_object dirs)
                          [read_metadata_excel schreib, read_metadata_excel aeg] obj_id)))
          (newly_processed dirs store))"
proof (cases "collect_images_by_object dirs = []")
  case True
  then show ?thesis by (simp add: main_def no_groups_nothing_new)
next
  case False
  let ?st = "\<lparr>rows = rows_from_store store, done_ids = done_from_store store,
              processed_this_run = 0, saved = store, activity = []\<rparr>"
  note r = main_loop_result [OF all_objs_distinct, of w j "collect_images_by_object dirs"
      "[read_metadata_excel schreib, read_metadata_excel aeg]" dirs ?st]
  show ?thesis
    using False r unfolding todo_initial
    by (simp add: main_def Let_def all_objs_of_def [symmetric])
qed







section \<open>Retrying the request\<close>

lemma backoff_step: "min (backoff n * (18 / 10)) 30 = backoff (Suc n)"
proof -
  have p: "(0::rat) < (18 / 10) ^ n" by simp
  show ?thesis
  proof (cases "2 * (18 / 10 :: rat) ^ n \<le> 30")
    case True
    then show ?thesis by (simp add: backoff_def min_def mult.commute mult.left_commute)
  next
    case False
    then have "30 < 2 * (18 / 10 :: rat) ^ n" by simp
    then have "30 < 2 * (18 / 10 :: rat) ^ n * (18 / 10)" by linarith
    then show ?thesis using False by (simp add: backoff_def min_def mult.commute mult.left_commute)
  qed
qed

lemma retries_empty: "retries api jitter a a = []"
  by (simp add: retries_def)

lemma retries_first:
  "a < b \<Longrightarrow> retries api jitter a b
     = Request a # Sleep (pause api jitter a) # retries api jitter (Suc a) b"
  by (simp add: retries_def upt_conv_Cons)

lemma retry_loop_transient_step:
  assumes "0 < a" "transient (api a)"
  shows "retry_loop (Suc left) a (backoff (a - 1)) api jitter =
           (fst (retry_loop left (Suc a) (backoff a) api jitter),
            Request a # Sleep (pause api jitter a) # snd (retry_loop left (Suc a) (backoff a) api jitter))"
proof -
  from assms(2) obtain msg where m: "api a = Failure msg" "is_rate_limit msg \<or> is_server_error msg"
    by (auto simp: transient_def split: api_result.splits)
  have s: "min (backoff (a - 1) * (18 / 10)) 30 = backoff a"
    using backoff_step [of "a - 1"] assms(1) by simp
  show ?thesis
    using m s by (auto simp: Let_def pause_def split: option.splits)
qed

lemma retry_loop_final_step:
  assumes "\<not> transient (api a)"
  shows "retry_loop (Suc left) a wait api jitter = final_outcome (api a) a"
  using assms by (auto simp: transient_def final_outcome_def split: api_result.splits)

lemma retry_loop_exhausted:
  assumes "0 < a" "\<forall>k. a \<le> k \<and> k < a + left \<longrightarrow> transient (api k)"
  shows "retry_loop left a (backoff (a - 1)) api jitter
           = (Inl max_retries_message, retries api jitter a (a + left))"
  using assms
proof (induction left arbitrary: a)
  case 0
  show ?case by (simp add: max_retries_message_def retries_empty)
next
  case (Suc left)
  have t: "transient (api a)" using Suc.prems(2) by simp
  have ih: "retry_loop left (Suc a) (backoff (Suc a - 1)) api jitter
           = (Inl max_retries_message, retries api jitter (Suc a) (Suc a + left))"
    by (rule Suc.IH) (use Suc.prems in auto)
  show ?case
    using retry_loop_transient_step [of a api left jitter] Suc.prems(1) t ih
    by (simp add: retries_first)
qed

lemma retry_loop_final:
  assumes "0 < a" "m < left" "\<forall>k. a \<le> k \<and> k < a + m \<longrightarrow> transient (api k)"
      and "\<not> transient (api (a + m))"
  shows "retry_loop left a (backoff (a - 1)) api jitter
           = (fst (final_outcome (api (a + m)) (a + m)),
              retries api jitter a (a + m) @ snd (final_outcome (api (a + m)) (a + m)))"
  using assms
proof (induction m arbitrary: a left)
  case 0
  then obtain l where l: "left = Suc l" by (cases left) auto
  show ?case
    using retry_loop_final_step [of api a l "backoff (a - 1)" jitter] 0
    by (simp add: l retries_empty)
next
  case (Suc m)
  then obtain l where l: "left = Suc l" by (cases left) auto
  have t: "transient (api a)" using Suc.prems(3) by simp
  have ih: "retry_loop l (Suc a) (backoff (Suc a - 1)) api jitter
           = (fst (final_outcome (api (Suc a + m)) (Suc a + m)),
              retries api jitter (Suc a) (Suc a + m) @ snd (final_outcome (api (Suc a + m)) (Suc a + m)))"
    by (rule Suc.IH) (use Suc.prems l in auto)
  show ?case
    using retry_loop_transient_step [of a api l jitter] Suc.prems(1) t ih
    by (simp add: l retries_first)
qed

lemma call_exhausted:
  assumes "\<forall>k. 1 \<le> k \<and> k \<le> MAX_RETRIES \<longrightarrow> transient (api k)"
  shows "call_openai_with_retry api jitter
           = (Inl max_retries_message, retries api jitter 1 (Suc MAX_RETRIES))"
proof -
  have "retry_loop MAX_RETRIES 1 (backoff (1 - 1)) api jitter
          = (Inl max_retries_message, retries api jitter 1 (1 + MAX_RETRIES))"
    by (rule retry_loop_exhausted) (use assms in auto)
  then show ?thesis by (simp add: call_openai_with_retry_def backoff_def)
qed

lemma call_final:
  assumes "1 \<le> n" "n \<le> MAX_RETRIES" "\<forall>k. 1 \<le> k \<and> k < n \<longrightarrow> transient (api k)"
      and "\<not> transient (api n)"
  shows "call_openai_with_retry api jitter
           = (fst (final_outcome (api n) n),
              retries api jitter 1 n @ snd (final_outcome (api n) n))"
proof -
  obtain m where m: "n = 1 + m" using assms(1) by (metis le_iff_add)
  have "retry_loop MAX_RETRIES 1 (backoff (1 - 1)) api jitter
          = (fst (final_outcome (api (1 + m)) (1 + m)),
             retries api jitter 1 (1 + m) @ snd (final_outcome (api (1 + m)) (1 + m)))"
    by (rule retry_loop_final) (use assms m in auto)
  then show ?thesis by (simp add: call_openai_with_retry_def backoff_def m)
qed

lemma row_for_failed:
  "fst (described w j g md obj_id) = Inl e \<Longrightarrow>
     row_for w j g md obj_id =
       \<lparr>object_id = Some obj_id, description = error_placeholder e,
        metadata = metadata_csv_line (build_metadata_for_object obj_id md)\<rparr>"
  by (simp add: row_for_def Let_def)



text \<open>
  C7, as amended. When every attempt up to \<^verbatim>\<open>MAX_RETRIES\<close> fails transiently, the call
  makes exactly these attempts, pauses after each, and raises the retry-limit error.
  When attempt \<open>n\<close> is the first that does not fail transiently, the call makes exactly
  \<open>n\<close> attempts: a failure is raised at once with its own message, a response is
  returned. The pause after a failed attempt is the jitter plus the capped backoff,
  or, for a rate-limit message that carries a hint other than zero, plus the hinted
  time and half a second, which the cap does not bound. In the run, an object whose
  description raises gets a row with the error placeholder, and every newly processed
  object gets its row.
\<close>

theorem retry_then_record_and_continue:
  "((\<forall>k. 1 \<le> k \<and> k \<le> MAX_RETRIES \<longrightarrow> transient (api k))
      \<longrightarrow> call_openai_with_retry api jitter
            = (Inl max_retries_message, retries api jitter 1 (Suc MAX_RETRIES)))
   \<and> (1 \<le> n \<and> n \<le> MAX_RETRIES \<and> (\<forall>k. 1 \<le> k \<and> k < n \<longrightarrow> transient (api k))
         \<and> \<not> transient (api n)
      \<longrightarrow> call_openai_with_retry api jitter
            = (fst (final_outcome (api n) n),
               retries api jitter 1 n @ snd (final_outcome (api n) n)))
   \<and> backoff m \<le> 30
   \<and> (obj_id \<in> set (newly_processed dirs store)
        \<and> fst (described w j (collect_images_by_object dirs)
                 [read_metadata_excel schreib, read_metadata_excel aeg] obj_id) = Inl e
      \<longrightarrow> (\<exists>rows1. fst (main w j dirs schreib aeg store) = Some rows1
             \<and> \<lparr>object_id = Some obj_id, description = error_placeholder e,
                 metadata = metadata_csv_line (build_metadata_for_object obj_id
                   [read_metadata_excel schreib, read_metadata_excel aeg])\<rparr> \<in> set rows1
             \<and> map object_id rows1
                 = map object_id (rows_from_store store) @ map Some (newly_processed dirs store)))"
proof -
  have 1: "(\<forall>k. 1 \<le> k \<and> k \<le> MAX_RETRIES \<longrightarrow> transient (api k))
      \<longrightarrow> call_openai_with_retry api jitter
            = (Inl max_retries_message, retries api jitter 1 (Suc MAX_RETRIES))"
    using call_exhausted by blast
  have 2: "1 \<le> n \<and> n \<le> MAX_RETRIES \<and> (\<forall>k. 1 \<le> k \<and> k < n \<longrightarrow> transient (api k))
         \<and> \<not> transient (api n)
      \<longrightarrow> call_openai_with_retry api jitter
            = (fst (final_outcome (api n) n),
               retries api jitter 1 n @ snd (final_outcome (api n) n))"
    using call_final by blast
  have 3: "backoff m \<le> 30" by (simp add: backoff_def)
  have 4: "\<exists>rows1. fst (main w j dirs schreib aeg store) = Some rows1
             \<and> \<lparr>object_id = Some obj_id, description = error_placeholder e,
                 metadata = metadata_csv_line (build_metadata_for_object obj_id
                   [read_metadata_excel schreib, read_metadata_excel aeg])\<rparr> \<in> set rows1
             \<and> map object_id rows1
                 = map object_id (rows_from_store store) @ map Some (newly_processed dirs store)"
    if a: "obj_id \<in> set (newly_processed dirs store)"
    and b: "fst (described w j (collect_images_by_object dirs)
                 [read_metadata_excel schreib, read_metadata_excel aeg] obj_id) = Inl e"
  proof -
    have ne: "newly_processed dirs store \<noteq> []" using a by auto
    have ids: "object_id (row_for w j g md x) = Some x" for g md x
      by (simp add: row_for_def Let_def)
    let ?g = "collect_images_by_object dirs"
    let ?md = "[read_metadata_excel schreib, read_metadata_excel aeg]"
    let ?rows1 = "rows_from_store store @ map (row_for w j ?g ?md) (newly_processed dirs store)"
    have r: "fst (main w j dirs schreib aeg store) = Some ?rows1"
      using ne by (simp add: main_result)
    have m: "row_for w j ?g ?md obj_id \<in> set ?rows1" using a by simp
    have i: "map object_id ?rows1
               = map object_id (rows_from_store store) @ map Some (newly_processed dirs store)"
      by (simp add: ids)
    show ?thesis
      using r m i unfolding row_for_failed [OF b] by blast
  qed
  show ?thesis using 1 2 3 4 by blast
qed

theorem retry_then_record_and_continue_witness:
  "call_openai_with_retry (\<lambda>k. Failure ''Error code: 502'') (\<lambda>k. 1 / 4)
     = (Inl max_retries_message,
        [Request 1, Sleep (9 / 4), Request 2, Sleep (77 / 20), Request 3, Sleep (673 / 100),
         Request 4, Sleep (5957 / 500), Request 5, Sleep (53113 / 2500), Request 6, Sleep (121 / 4)])
   \<and> call_openai_with_retry (failing_first ''1-1997-0457'') (\<lambda>k. 1 / 4)
     = (Inl ''invalid request'', [Request 1, Sleep (9 / 4), Request 2, Sleep (77 / 20), Request 3])
   \<and> map object_id (rows_from_store (fst (main failing_first no_jitter two_objects None None None)))
     = [Some ''1-1997-0457'', Some ''1-1997-0458'']
   \<and> \<lparr>object_id = Some ''1-1997-0457'',
       description = ''[Error during description: invalid request]'',
       metadata = ''1-1997-0457, No Data, No Data, No Data, No Data, No Data, No Data, No Data''\<rparr>
       \<in> set (rows_from_store (fst (main failing_first no_jitter two_objects None None None)))"
proof -
  let ?always = "\<lambda>k::nat. Failure ''Error code: 502''"
  let ?j = "\<lambda>k::nat. 1 / 4 :: rat"
  have t502: "transient (Failure ''Error code: 502'')" by code_simp
  have t503: "transient (Failure ''Error code: 503'')" by code_simp
  have nt: "\<not> transient (Failure ''invalid request'')" by code_simp
  have a: "\<forall>k. 1 \<le> k \<and> k \<le> MAX_RETRIES \<longrightarrow> transient (?always k)" using t502 by simp
  have r6: "retries ?always ?j 1 (Suc MAX_RETRIES)
     = [Request 1, Sleep (9 / 4), Request 2, Sleep (77 / 20), Request 3, Sleep (673 / 100),
         Request 4, Sleep (5957 / 500), Request 5, Sleep (53113 / 2500), Request 6, Sleep (121 / 4)]"
    by code_simp
  have 1: "call_openai_with_retry ?always ?j
     = (Inl max_retries_message,
        [Request 1, Sleep (9 / 4), Request 2, Sleep (77 / 20), Request 3, Sleep (673 / 100),
         Request 4, Sleep (5957 / 500), Request 5, Sleep (53113 / 2500), Request 6, Sleep (121 / 4)])"
    using retry_then_record_and_continue [of ?always ?j] a unfolding r6 by blast
  let ?f = "failing_first ''1-1997-0457''"
  have b: "1 \<le> (3::nat) \<and> 3 \<le> MAX_RETRIES \<and> (\<forall>k. 1 \<le> k \<and> k < 3 \<longrightarrow> transient (?f k))
         \<and> \<not> transient (?f 3)"
    using t503 nt by (simp add: failing_first_def MAX_RETRIES_def)
  have f3: "final_outcome (?f 3) 3 = (Inl ''invalid request'', [Request 3])" by code_simp
  have r3: "retries ?f ?j 1 3 = [Request 1, Sleep (9 / 4), Request 2, Sleep (77 / 20)]" by code_simp
  have 2: "call_openai_with_retry ?f ?j
     = (Inl ''invalid request'', [Request 1, Sleep (9 / 4), Request 2, Sleep (77 / 20), Request 3])"
    using retry_then_record_and_continue [of ?f ?j 3] b unfolding f3 r3 by simp
  have n: "newly_processed two_objects None = [''1-1997-0457'', ''1-1997-0458'']" by code_simp
  have d: "fst (described failing_first no_jitter (collect_images_by_object two_objects)
                 [read_metadata_excel None, read_metadata_excel None] ''1-1997-0457'')
            = Inl ''invalid request''"
    by code_simp
  have ml: "metadata_csv_line (build_metadata_for_object ''1-1997-0457''
                   [read_metadata_excel None, read_metadata_excel None])
            = ''1-1997-0457, No Data, No Data, No Data, No Data, No Data, No Data, No Data''"
    by code_simp
  have ep: "error_placeholder ''invalid request'' = ''[Error during description: invalid request]''"
    by code_simp
  have "\<exists>rows1. fst (main failing_first no_jitter two_objects None None None) = Some rows1
             \<and> \<lparr>object_id = Some ''1-1997-0457'', description = error_placeholder ''invalid request'',
                 metadata = metadata_csv_line (build_metadata_for_object ''1-1997-0457''
                   [read_metadata_excel None, read_metadata_excel None])\<rparr> \<in> set rows1
             \<and> map object_id rows1
                 = map object_id (rows_from_store None) @ map Some (newly_processed two_objects None)"
    using retry_then_record_and_continue [of _ _ _ _ "''1-1997-0457''" two_objects None failing_first no_jitter None None
        "''invalid request''"] d n
    by simp
  then have 3: "map object_id (rows_from_store (fst (main failing_first no_jitter two_objects None None None)))
     = [Some ''1-1997-0457'', Some ''1-1997-0458'']"
   and 4: "\<lparr>object_id = Some ''1-1997-0457'',
       description = ''[Error during description: invalid request]'',
       metadata = ''1-1997-0457, No Data, No Data, No Data, No Data, No Data, No Data, No Data''\<rparr>
       \<in> set (rows_from_store (fst (main failing_first no_jitter two_objects None None None)))"
    unfolding ml ep n by (auto simp: rows_from_store_def)
  show ?thesis using 1 2 3 4 by blast
qed

text \<open>
  C7 as stated fails on the pause: after a rate-limit message with the hint
  \<^verbatim>\<open>try again in 100s\<close> the call sleeps 100.5 seconds, more than the cap of 30
  seconds plus the largest jitter.
\<close>

theorem hinted_pause_exceeds_cap:
  "snd (call_openai_with_retry
     (\<lambda>k. if k = 1 then Failure ''Error code: 429 - Rate limit reached. Please try again in 100s.''
          else Response ''ok'')
     (\<lambda>k. 0))
   = [Request 1, Sleep (201 / 2), Request 2, Sleep (5 / 2)]
   \<and> \<not> ((201 / 2 :: rat) \<le> 30 + 1 / 2)"
proof -
  have "snd (call_openai_with_retry
     (\<lambda>k. if k = 1 then Failure ''Error code: 429 - Rate limit reached. Please try again in 100s.''
          else Response ''ok'')
     (\<lambda>k. 0))
   = [Request 1, Sleep (201 / 2), Request 2, Sleep (5 / 2)]"
    by code_simp
  then show ?thesis by simp
qed


section \<open>Failed objects in later runs\<close>











section \<open>The index and the order of the listings\<close>

lemma find_append_cases:
  "find P (xs @ ys) = (case find P xs of Some x \<Rightarrow> Some x | None \<Rightarrow> find P ys)"
  by (induction xs) auto

lemma find_in_set: "find P xs = Some x \<Longrightarrow> x \<in> set xs \<and> P x"
  by (induction xs) (auto split: if_splits)

lemma find_same_elements:
  assumes "distinct (map K b)" "mset b = mset b'"
  shows "find (\<lambda>p. K p = n) b = find (\<lambda>p. K p = n) b'"
proof -
  have s: "set b = set b'" using assms(2) by (rule mset_eq_setD)
  have inj: "inj_on K (set b)" using assms(1) by (simp add: distinct_map)
  show ?thesis
  proof (cases "find (\<lambda>p. K p = n) b")
    case None
    then have "find (\<lambda>p. K p = n) b' = None" using s by (simp add: find_None_iff)
    with None show ?thesis by simp
  next
    case (Some x)
    then have x: "x \<in> set b" "K x = n" using find_in_set by fastforce+
    then have "find (\<lambda>p. K p = n) b' \<noteq> None" using s by (auto simp: find_None_iff)
    then obtain y where y: "find (\<lambda>p. K p = n) b' = Some y" by auto
    then have "y \<in> set b" "K y = n" using find_in_set s by fastforce+
    then have "x = y" using x inj by (auto dest: inj_onD)
    with Some y show ?thesis by simp
  qed
qed

lemma find_same_blocks:
  assumes "list_all2 (\<lambda>b b'. mset b = mset b') bs bs'" "\<forall>b \<in> set bs. distinct (map K b)"
  shows "find (\<lambda>p. K p = n) (concat bs) = find (\<lambda>p. K p = n) (concat bs')"
  using assms
proof (induction rule: list_all2_induct)
  case Nil
  show ?case by simp
next
  case (Cons b bs b' bs')
  have "find (\<lambda>p. K p = n) b = find (\<lambda>p. K p = n) b'"
    using Cons.prems Cons.hyps(1) by (intro find_same_elements) auto
  moreover have "find (\<lambda>p. K p = n) (concat bs) = find (\<lambda>p. K p = n) (concat bs')"
    using Cons.IH Cons.prems by simp
  ultimately show ?case by (simp add: find_append_cases split: option.splits)
qed

lemma same_blocks_same_set:
  "list_all2 (\<lambda>b b'. mset b = mset b') bs bs' \<Longrightarrow> set (concat bs) = set (concat bs')"
  by (induction rule: list_all2_induct) (auto dest: mset_eq_setD)

text \<open>A list with at most one element of each key.\<close>

lemma distinct_by_key:
  assumes "\<And>n. length (filter (\<lambda>p. K p = n) xs) \<le> 1"
  shows "distinct xs"
  using assms
proof (induction xs)
  case Nil
  show ?case by simp
next
  case (Cons x xs)
  have a: "length (filter (\<lambda>p. K p = n) xs) \<le> 1" for n
    using Cons.prems [of n] by (simp split: if_splits)
  have "x \<notin> set xs"
  proof
    assume "x \<in> set xs"
    then have "filter (\<lambda>p. K p = K x) xs \<noteq> []" by (auto simp: filter_empty_conv)
    then have "0 < length (filter (\<lambda>p. K p = K x) xs)" by simp
    with Cons.prems [of "K x"] show False by simp
  qed
  with Cons.IH a show ?case by simp
qed

lemma sort_key_same_set:
  assumes "distinct xs" "distinct ys" "set xs = set ys" "inj_on f (set xs)"
  shows "sort_key f xs = sort_key f ys"
proof -
  have "map f (sort_key f xs) = map f (sort_key f ys)"
  proof (rule sorted_distinct_set_unique)
    show "sorted (map f (sort_key f xs))" by (rule sorted_sort_key)
    show "sorted (map f (sort_key f ys))" by (rule sorted_sort_key)
    show "distinct (map f (sort_key f xs))" using assms(1,4) by (simp add: distinct_map)
    show "distinct (map f (sort_key f ys))" using assms(2,3,4) by (simp add: distinct_map)
    show "set (map f (sort_key f xs)) = set (map f (sort_key f ys))" using assms(3) by simp
  qed
  moreover have "inj_on f (set (sort_key f xs) \<union> set (sort_key f ys))" using assms(3,4) by simp
  ultimately show ?thesis by (simp add: inj_on_map_eq_map)
qed

lemma index_of_same_blocks:
  fixes U :: "'a list \<Rightarrow> 'a list" and f :: "'a \<Rightarrow> 'k::linorder"
  assumes U: "\<And>n xs. filter (\<lambda>p. K p = n) (U xs) =
                 (case find (\<lambda>p. K p = n) xs of None \<Rightarrow> [] | Some p \<Rightarrow> [p])"
      and blocks: "list_all2 (\<lambda>b b'. mset b = mset b') bs bs'"
      and within: "\<forall>b \<in> set bs. distinct (map K b)"
      and ties: "\<forall>p \<in> set (concat bs). \<forall>q \<in> set (concat bs). f p = f q \<longrightarrow> K p = K q"
  shows "sort_key f (U (concat bs)) = sort_key f (U (concat bs'))"
proof -
  let ?G = "concat bs" and ?G' = "concat bs'"
  have char: "p \<in> set (U xs) \<longleftrightarrow> find (\<lambda>q. K q = K p) xs = Some p" for p xs
  proof -
    have "p \<in> set (U xs) \<longleftrightarrow> p \<in> set (filter (\<lambda>q. K q = K p) (U xs))" by simp
    also have "\<dots> \<longleftrightarrow> find (\<lambda>q. K q = K p) xs = Some p"
      unfolding U by (cases "find (\<lambda>q. K q = K p) xs") auto
    finally show ?thesis .
  qed
  have one: "length (filter (\<lambda>p. K p = n) (U xs)) \<le> 1" for n xs
    unfolding U by (cases "find (\<lambda>p. K p = n) xs") auto
  have d: "distinct (U ?G)" "distinct (U ?G')"
    using one by (rule distinct_by_key)+
  have s: "set (U ?G) = set (U ?G')"
    using find_same_blocks [OF blocks within] by (auto simp: char)
  have sub: "set (U ?G) \<subseteq> set ?G"
    using find_in_set by (fastforce simp: char)
  have inj: "inj_on f (set (U ?G))"
  proof (rule inj_onI)
    fix p q assume p: "p \<in> set (U ?G)" and q: "q \<in> set (U ?G)" and e: "f p = f q"
    then have k: "K p = K q" using ties sub by blast
    show "p = q" using p q k by (simp add: char)
  qed
  show ?thesis using d s inj by (rule sort_key_same_set)
qed

lemma gathered_for_blocks: "gathered_for dirs k = concat (map (images_in_root k) dirs)"
  by (induction dirs) (simp_all add: gathered_for_alt images_in_root_def)

lemma candidates_blocks:
  "map fst (collect_candidates obj_id roots) = concat (map (candidate_paths obj_id) roots)"
  by (simp add: collect_candidates_def candidate_paths_def [abs_def] map_concat comp_def)

lemma same_files_images:
  "same_files d d' \<Longrightarrow> mset (images_in_root k d) = mset (images_in_root k d')"
  by (simp add: same_files_def images_in_root_def)

lemma same_files_candidates:
  "same_files d d' \<Longrightarrow> mset (candidate_paths obj_id d) = mset (candidate_paths obj_id d')"
  by (simp add: same_files_def candidate_paths_def candidates_in_root_def comp_def)

lemma same_files_blocks:
  assumes "list_all2 same_files dirs dirs'" "\<And>d d'. same_files d d' \<Longrightarrow> mset (g d) = mset (g d')"
  shows "list_all2 (\<lambda>b b'. mset b = mset b') (map g dirs) (map g dirs')"
  using assms(1) by (induction rule: list_all2_induct) (simp_all add: assms(2))

lemma by_object_same_files:
  assumes "list_all2 same_files dirs dirs'"
      and "\<forall>d \<in> set dirs. distinct (map filename_key (images_in_root k d))"
      and "\<forall>p \<in> set (gathered_for dirs k). \<forall>q \<in> set (gathered_for dirs k).
             suffix_sort_key p = suffix_sort_key q \<longrightarrow> filename_key p = filename_key q"
  shows "map_of (collect_images_by_object dirs) k = map_of (collect_images_by_object dirs') k"
proof -
  let ?bs = "map (images_in_root k) dirs" and ?bs' = "map (images_in_root k) dirs'"
  have blocks: "list_all2 (\<lambda>b b'. mset b = mset b') ?bs ?bs'"
    using assms(1) same_files_images by (rule same_files_blocks)
  have within: "\<forall>b \<in> set ?bs. distinct (map filename_key b)" using assms(2) by simp
  have ties: "\<forall>p \<in> set (concat ?bs). \<forall>q \<in> set (concat ?bs).
                suffix_sort_key p = suffix_sort_key q \<longrightarrow> filename_key p = filename_key q"
    using assms(3) unfolding gathered_for_blocks .
  have "sort_key suffix_sort_key (unique_by_filename (concat ?bs))
          = sort_key suffix_sort_key (unique_by_filename (concat ?bs'))"
    using unique_by_filename_filter blocks within ties by (rule index_of_same_blocks)
  moreover have "set (concat ?bs) = set (concat ?bs')"
    using blocks by (rule same_blocks_same_set)
  then have "concat ?bs = [] \<longleftrightarrow> concat ?bs' = []" by (metis set_empty)
  ultimately show ?thesis
    by (simp add: collect_images_by_object_lookup gathered_for_blocks)
qed

lemma dedup_paths_filter:
  "filter (\<lambda>p. name_size_key p = n)
     (dedup_loop {} [] (map (\<lambda>p. (p, lower (name p), size_or_minus1 p)) xs)) =
     (case find (\<lambda>p. name_size_key p = n) xs of None \<Rightarrow> [] | Some p \<Rightarrow> [p])"
  by (simp add: dedup_loop_filter)

lemma for_object_same_files:
  assumes "list_all2 same_files roots roots'"
      and "\<forall>d \<in> set roots. distinct (map name_size_key (candidate_paths obj_id d))"
      and "\<forall>p \<in> set (map fst (collect_candidates obj_id roots)).
           \<forall>q \<in> set (map fst (collect_candidates obj_id roots)).
             suffix_sort_key_build_site p = suffix_sort_key_build_site q
               \<longrightarrow> name_size_key p = name_size_key q"
  shows "collect_images_for_object obj_id roots = collect_images_for_object obj_id roots'"
proof -
  let ?bs = "map (candidate_paths obj_id) roots" and ?bs' = "map (candidate_paths obj_id) roots'"
  let ?U = "\<lambda>xs. dedup_loop {} [] (map (\<lambda>p. (p, lower (name p), size_or_minus1 p)) xs)"
  have blocks: "list_all2 (\<lambda>b b'. mset b = mset b') ?bs ?bs'"
    using assms(1) same_files_candidates by (rule same_files_blocks)
  have within: "\<forall>b \<in> set ?bs. distinct (map name_size_key b)" using assms(2) by simp
  have ties: "\<forall>p \<in> set (concat ?bs). \<forall>q \<in> set (concat ?bs).
                suffix_sort_key_build_site p = suffix_sort_key_build_site q
                  \<longrightarrow> name_size_key p = name_size_key q"
    using assms(3) unfolding candidates_blocks .
  have e: "sort_key suffix_sort_key_build_site (?U (concat ?bs))
          = sort_key suffix_sort_key_build_site (?U (concat ?bs'))"
    using dedup_paths_filter blocks within ties by (rule index_of_same_blocks)
  have c: "collect_candidates obj_id r
             = map (\<lambda>p. (p, lower (name p), size_or_minus1 p)) (concat (map (candidate_paths obj_id) r))"
    for r
    using collect_candidates_paths [of obj_id r] unfolding candidates_blocks .
  show ?thesis
    unfolding collect_images_for_object_def using e c [of roots] c [of roots'] by simp
qed


text \<open>
  C5, as amended. Two lists of roots that hold the same files, root by root, each root
  listed in any order, give the same images in the same order for an object whenever
  no two of the object's files in one root have the same duplicate key and files of
  the object with equal sort keys have equal duplicate keys.
\<close>

theorem index_independent_of_listing_order:
  "(list_all2 same_files dirs dirs'
      \<and> (\<forall>d \<in> set dirs. distinct (map filename_key (images_in_root obj_id d)))
      \<and> (\<forall>p \<in> set (gathered_for dirs obj_id). \<forall>q \<in> set (gathered_for dirs obj_id).
             suffix_sort_key p = suffix_sort_key q \<longrightarrow> filename_key p = filename_key q)
    \<longrightarrow> map_of (collect_images_by_object dirs) obj_id
        = map_of (collect_images_by_object dirs') obj_id)
   \<and> (list_all2 same_files dirs dirs'
      \<and> (\<forall>d \<in> set dirs. distinct (map name_size_key (candidate_paths obj_id d)))
      \<and> (\<forall>p \<in> set (map fst (collect_candidates obj_id dirs)).
          \<forall>q \<in> set (map fst (collect_candidates obj_id dirs)).
             suffix_sort_key_build_site p = suffix_sort_key_build_site q
               \<longrightarrow> name_size_key p = name_size_key q)
    \<longrightarrow> collect_images_for_object obj_id dirs = collect_images_for_object obj_id dirs')"
  using by_object_same_files [of dirs dirs' obj_id] for_object_same_files [of dirs dirs' obj_id]
  by blast


theorem index_independent_of_listing_order_witness:
  "map_of (collect_images_by_object copies_in_two_roots) ''1-1997-0457''
     = map_of (collect_images_by_object copies_listed_otherwise) ''1-1997-0457''
   \<and> collect_images_for_object ''1-1997-0457'' copies_in_two_roots
     = collect_images_for_object ''1-1997-0457'' copies_listed_otherwise"
proof -
  let ?k = "''1-1997-0457''"
  let ?a1 = "image_file ''output/aeg'' ''1-1997-0457-000-001.jpg'' 10"
  let ?a0 = "image_file ''output/aeg'' ''1-1997-0457-000-000.jpg'' 10"
  let ?b1 = "image_file ''images/1997'' ''1-1997-0457-000-001.jpg'' 10"
  have h1: "list_all2 same_files copies_in_two_roots copies_listed_otherwise"
    by (simp add: copies_in_two_roots_def copies_listed_otherwise_def same_files_def listing_def
        add.commute)
  have "list_all (\<lambda>d. distinct (map filename_key (images_in_root ?k d))) copies_in_two_roots"
    by code_simp
  then have h2: "\<forall>d \<in> set copies_in_two_roots. distinct (map filename_key (images_in_root ?k d))"
    by (simp add: list_all_iff)
  have "list_all (\<lambda>d. distinct (map name_size_key (candidate_paths ?k d))) copies_in_two_roots"
    by code_simp
  then have h4: "\<forall>d \<in> set copies_in_two_roots. distinct (map name_size_key (candidate_paths ?k d))"
    by (simp add: list_all_iff)
  have g: "gathered_for copies_in_two_roots ?k = [?a1, ?a0, ?b1]" by code_simp
  have c: "map fst (collect_candidates ?k copies_in_two_roots) = [?a1, ?a0, ?b1]" by code_simp
  have s: "suffix_sort_key ?a1 = (0, 1, ''1-1997-0457-000-001'')"
          "suffix_sort_key ?a0 = (0, 0, ''1-1997-0457-000-000'')"
          "suffix_sort_key ?b1 = (0, 1, ''1-1997-0457-000-001'')"
    by code_simp+
  have f: "filename_key ?a1 = ''1-1997-0457-000-001.jpg''"
          "filename_key ?a0 = ''1-1997-0457-000-000.jpg''"
          "filename_key ?b1 = ''1-1997-0457-000-001.jpg''"
    by code_simp+
  have t: "suffix_sort_key_build_site ?a1 = (0, 1, ''1-1997-0457-000-001.jpg'')"
          "suffix_sort_key_build_site ?a0 = (0, 0, ''1-1997-0457-000-000.jpg'')"
          "suffix_sort_key_build_site ?b1 = (0, 1, ''1-1997-0457-000-001.jpg'')"
    by code_simp+
  have n: "name_size_key ?a1 = (''1-1997-0457-000-001.jpg'', 10)"
          "name_size_key ?a0 = (''1-1997-0457-000-000.jpg'', 10)"
          "name_size_key ?b1 = (''1-1997-0457-000-001.jpg'', 10)"
    by code_simp+
  have h3: "\<forall>p \<in> set (gathered_for copies_in_two_roots ?k).
                 \<forall>q \<in> set (gathered_for copies_in_two_roots ?k).
                   suffix_sort_key p = suffix_sort_key q \<longrightarrow> filename_key p = filename_key q"
    unfolding g by (simp add: s f)
  have h5: "\<forall>p \<in> set (map fst (collect_candidates ?k copies_in_two_roots)).
                 \<forall>q \<in> set (map fst (collect_candidates ?k copies_in_two_roots)).
                   suffix_sort_key_build_site p = suffix_sort_key_build_site q
                     \<longrightarrow> name_size_key p = name_size_key q"
    unfolding c by (simp add: t n)
  show ?thesis
    using index_independent_of_listing_order [of copies_in_two_roots copies_listed_otherwise ?k] h1 h2 h3 h4 h5
    by blast
qed

text \<open>
  C5 as stated fails: the state the claim fixes is the set of files with their names
  and sizes, and the two listings below are listings of one such set. The root holds
  \<^verbatim>\<open>1-1997-0457-000-000.jpg\<close> and \<^verbatim>\<open>1-1997-0457-000-000.png\<close>, which have equal sort keys
  in autoOpenAIDescription.py (the key ends with the stem), so the stable sort leaves
  them in the order of the listing, and the two listings give two different orders.
\<close>

theorem listing_order_changes_index:
  "same_files (listing [image_file ''output/aeg'' ''1-1997-0457-000-000.jpg'' 10,
                        image_file ''output/aeg'' ''1-1997-0457-000-000.png'' 20])
              (listing [image_file ''output/aeg'' ''1-1997-0457-000-000.png'' 20,
                        image_file ''output/aeg'' ''1-1997-0457-000-000.jpg'' 10])
   \<and> collect_images_by_object
        [listing [image_file ''output/aeg'' ''1-1997-0457-000-000.jpg'' 10,
                  image_file ''output/aeg'' ''1-1997-0457-000-000.png'' 20]]
     = [(''1-1997-0457'', [image_file ''output/aeg'' ''1-1997-0457-000-000.jpg'' 10,
                          image_file ''output/aeg'' ''1-1997-0457-000-000.png'' 20])]
   \<and> collect_images_by_object
        [listing [image_file ''output/aeg'' ''1-1997-0457-000-000.png'' 20,
                  image_file ''output/aeg'' ''1-1997-0457-000-000.jpg'' 10]]
     = [(''1-1997-0457'', [image_file ''output/aeg'' ''1-1997-0457-000-000.png'' 20,
                          image_file ''output/aeg'' ''1-1997-0457-000-000.jpg'' 10])]"
proof -
  have a: "same_files (listing [image_file ''output/aeg'' ''1-1997-0457-000-000.jpg'' 10,
                        image_file ''output/aeg'' ''1-1997-0457-000-000.png'' 20])
              (listing [image_file ''output/aeg'' ''1-1997-0457-000-000.png'' 20,
                        image_file ''output/aeg'' ''1-1997-0457-000-000.jpg'' 10])"
    by (simp add: same_files_def listing_def add.commute)
  have b: "collect_images_by_object
        [listing [image_file ''output/aeg'' ''1-1997-0457-000-000.jpg'' 10,
                  image_file ''output/aeg'' ''1-1997-0457-000-000.png'' 20]]
     = [(''1-1997-0457'', [image_file ''output/aeg'' ''1-1997-0457-000-000.jpg'' 10,
                          image_file ''output/aeg'' ''1-1997-0457-000-000.png'' 20])]"
    by code_simp
  have c: "collect_images_by_object
        [listing [image_file ''output/aeg'' ''1-1997-0457-000-000.png'' 20,
                  image_file ''output/aeg'' ''1-1997-0457-000-000.jpg'' 10]]
     = [(''1-1997-0457'', [image_file ''output/aeg'' ''1-1997-0457-000-000.png'' 20,
                          image_file ''output/aeg'' ''1-1997-0457-000-000.jpg'' 10])]"
    by code_simp
  show ?thesis using a b c by blast
qed

end
